theory Spec2Isabelle
  imports Complex_Main "HOL-Library.Word" "HOL-Library.Multiset"
begin

unbundle bit_operations_syntax

text \<open>
  The employee hash table of \<^verbatim>\<open>main.cpp\<close>: a vector of chains with FNV-1a hashing, a prime
  number of buckets and a rehash at a load factor above 0.75, behind one mutex. The
  sections up to "The hash table" translate the C++ functions one by one, and "Callers
  that share the table" splits them into their statements; the other sections state and
  prove what the table guarantees.
\<close>

section \<open>Employee records and their validation\<close>

text \<open>
  The enums of \<^verbatim>\<open>main.cpp\<close>.
\<close>

datatype Department = ENGINEERING | HR | FINANCE | MARKETING | OPERATIONS | SALES | UNKNOWN

datatype EmployeeStatus = ACTIVE | INACTIVE | ON_LEAVE | TERMINATED

datatype AccessLevel = BASIC | ADMIN

text \<open>
  A C++ \<^verbatim>\<open>double\<close> as far as the table looks at it: the salary is only stored, copied and
  compared. A finite double is the real number it denotes; the two infinities and NaN are
  kept apart because every ordered comparison with NaN is false.
\<close>

datatype double = Finite real | PosInf | NegInf | NaN

fun double_le :: "double \<Rightarrow> double \<Rightarrow> bool" where
  "double_le NaN _ = False"
| "double_le _ NaN = False"
| "double_le NegInf _ = True"
| "double_le _ PosInf = True"
| "double_le (Finite x) (Finite y) = (x \<le> y)"
| "double_le _ _ = False"

fun double_less :: "double \<Rightarrow> double \<Rightarrow> bool" where
  "double_less NaN _ = False"
| "double_less _ NaN = False"
| "double_less a b = (\<not> double_le b a)"

text \<open>
  \<^verbatim>\<open>struct Employee\<close>. The field \<^verbatim>\<open>id\<close> is named \<open>id_emp\<close> here (\<open>id\<close> is HOL's
  identity function); \<^verbatim>\<open>hireDate\<close> is the time point as a count of clock ticks.
\<close>

record Employee =
  id_emp :: string
  firstName :: string
  lastName :: string
  position :: string
  department :: Department
  salary :: double
  email :: string
  phone :: string
  hireDate :: int
  status :: EmployeeStatus
  skills :: "string list"
  managerId :: string
  accessLevel :: AccessLevel

text \<open>
  The character classes of the regular expressions of \<^verbatim>\<open>class Validator\<close>, in the
  default ("C") locale of \<^verbatim>\<open>std::regex\<close>: \<^verbatim>\<open>[A-Z]\<close>, \<^verbatim>\<open>[a-z]\<close>, \<^verbatim>\<open>\d\<close> and \<^verbatim>\<open>\s\<close>
  (space, and the control characters 9 to 13).
\<close>

definition is_upper :: "char \<Rightarrow> bool" where
  "is_upper c = (65 \<le> (of_char c :: nat) \<and> (of_char c :: nat) \<le> 90)"

definition is_lower :: "char \<Rightarrow> bool" where
  "is_lower c = (97 \<le> (of_char c :: nat) \<and> (of_char c :: nat) \<le> 122)"

definition is_digit :: "char \<Rightarrow> bool" where
  "is_digit c = (48 \<le> (of_char c :: nat) \<and> (of_char c :: nat) \<le> 57)"

definition is_space :: "char \<Rightarrow> bool" where
  "is_space c = ((of_char c :: nat) = 32 \<or> (9 \<le> (of_char c :: nat) \<and> (of_char c :: nat) \<le> 13))"

definition is_alpha :: "char \<Rightarrow> bool" where
  "is_alpha c = (is_upper c \<or> is_lower c)"

text \<open>\<^verbatim>\<open>regex_match(id, [A-Z]{2}\d{4})\<close>: the whole string is two capitals and four digits.\<close>

definition isValidID :: "string \<Rightarrow> bool" where
  "isValidID s = (length s = 6 \<and> list_all is_upper (take 2 s) \<and> list_all is_digit (drop 2 s))"

text \<open>\<^verbatim>\<open>[A-Za-z\s'-]{2,50}\<close>\<close>

definition isValidName :: "string \<Rightarrow> bool" where
  "isValidName s = (2 \<le> length s \<and> length s \<le> 50 \<and>
     list_all (\<lambda>c. is_alpha c \<or> is_space c \<or> c = CHR 0x27 \<or> c = CHR ''-'') s)"

text \<open>\<^verbatim>\<open>[A-Za-z\s-]{2,30}\<close>\<close>

definition isValidPosition :: "string \<Rightarrow> bool" where
  "isValidPosition s = (2 \<le> length s \<and> length s \<le> 30 \<and>
     list_all (\<lambda>c. is_alpha c \<or> is_space c \<or> c = CHR ''-'') s)"

text \<open>\<^verbatim>\<open>salary >= 0 && salary <= 10000000\<close>\<close>

definition isValidSalary :: "double \<Rightarrow> bool" where
  "isValidSalary s = (double_le (Finite 0) s \<and> double_le s (Finite 10000000))"

text \<open>
  \<^verbatim>\<open>[a-zA-Z0-9._%+-]+@[a-zA-Z0-9.-]+\.[a-zA-Z]{2,}\<close>. The local part cannot hold an
  \<^verbatim>\<open>@\<close>, so it ends at the first one; the last block holds letters only, so it starts
  after the last dot.
\<close>

definition email_local_char :: "char \<Rightarrow> bool" where
  "email_local_char c = (is_alpha c \<or> is_digit c \<or> c \<in> set ''._%+-'')"

definition email_domain_char :: "char \<Rightarrow> bool" where
  "email_domain_char c = (is_alpha c \<or> is_digit c \<or> c \<in> set ''.-'')"

definition isValidEmail :: "string \<Rightarrow> bool" where
  "isValidEmail s =
     (let local_part = takeWhile (\<lambda>c. c \<noteq> CHR ''@'') s;
          after_local = drop (length local_part) s;
          host = drop 1 after_local;
          tld = rev (takeWhile (\<lambda>c. c \<noteq> CHR ''.'') (rev host));
          before_tld = take (length host - length tld) host;
          domain_part = butlast before_tld
      in local_part \<noteq> [] \<and> list_all email_local_char local_part \<and>
         after_local \<noteq> [] \<and>
         before_tld \<noteq> [] \<and>
         domain_part \<noteq> [] \<and> list_all email_domain_char domain_part \<and>
         2 \<le> length tld \<and> list_all is_alpha tld)"

text \<open>\<^verbatim>\<open>\+?\d{10,15}\<close>\<close>

definition isValidPhone :: "string \<Rightarrow> bool" where
  "isValidPhone s =
     (let digits = (case s of c # rest \<Rightarrow> (if c = CHR ''+'' then rest else s) | [] \<Rightarrow> s)
      in 10 \<le> length digits \<and> length digits \<le> 15 \<and> list_all is_digit digits)"

text \<open>
  \<^verbatim>\<open>Employee::validate\<close> throws an \<^verbatim>\<open>EmployeeException\<close> carrying a message; the
  exception is the left summand of the result.
\<close>

datatype EmployeeException = EmployeeException string

definition validate :: "Employee \<Rightarrow> EmployeeException + unit" where
  "validate e =
     (if \<not> isValidID (id_emp e) then Inl (EmployeeException ''Invalid employee ID format'')
      else if \<not> isValidName (firstName e) \<or> \<not> isValidName (lastName e)
        then Inl (EmployeeException ''Invalid name format'')
      else if \<not> isValidPosition (position e)
        then Inl (EmployeeException ''Invalid position format'')
      else if \<not> isValidSalary (salary e)
        then Inl (EmployeeException ''Invalid salary range'')
      else if email e \<noteq> [] \<and> \<not> isValidEmail (email e)
        then Inl (EmployeeException ''Invalid email format'')
      else if phone e \<noteq> [] \<and> \<not> isValidPhone (phone e)
        then Inl (EmployeeException ''Invalid phone format'')
      else Inr ())"

section \<open>The hash function and the prime sizer\<close>

text \<open>
  \<^verbatim>\<open>size_t\<close> is 64 bits wide. The FNV-1a fold is done on \<open>64 word\<close>, where \<open>XOR\<close> and
  \<open>*\<close> are the machine's. \<^verbatim>\<open>static_cast<size_t>(c)\<close> of a \<^verbatim>\<open>char\<close> sign-extends where
  \<^verbatim>\<open>char\<close> is signed (x86-64); for the 7-bit characters of a valid id this is the
  character code either way.
\<close>

type_synonym size_t = "64 word"

definition char_to_size_t :: "char \<Rightarrow> size_t" where
  "char_to_size_t c = scast (of_char c :: 8 word)"

definition FNV_OFFSET_BASIS :: size_t where
  "FNV_OFFSET_BASIS = 14695981039346656037"

definition FNV_PRIME :: size_t where
  "FNV_PRIME = 1099511628211"

fun fnv1a :: "size_t \<Rightarrow> string \<Rightarrow> size_t" where
  "fnv1a hash_value [] = hash_value"
| "fnv1a hash_value (c # key) = fnv1a ((hash_value XOR char_to_size_t c) * FNV_PRIME) key"

text \<open>
  \<^verbatim>\<open>hash(key)\<close> reads the member \<^verbatim>\<open>bucket_count\<close>, here its second argument. The bucket
  counts and loop counters of the sizer are natural numbers below \<open>2 ^ 64\<close>, with the
  wrap-around of \<^verbatim>\<open>size_t\<close> arithmetic written out. \<^verbatim>\<open>hash_value % 0\<close> is undefined in
  C++; a table has a bucket count of 0 only after it was moved from.
\<close>

definition hash :: "string \<Rightarrow> nat \<Rightarrow> nat" where
  "hash key bucket_count = unat (fnv1a FNV_OFFSET_BASIS key) mod bucket_count"

text \<open>
  The loop of \<^verbatim>\<open>is_prime\<close>: \<^verbatim>\<open>for (size_t i = 3; i * i <= n; i += 2)\<close>. Both \<^verbatim>\<open>i * i\<close> and
  \<^verbatim>\<open>i += 2\<close> wrap. From 3 the counter stays odd, and after \<open>2 ^ 64 - 1\<close> it is 1, which
  divides \<open>n\<close>: the loop always ends. The counter 0 (\<^verbatim>\<open>n % 0\<close>, undefined) is reached from
  even counters only, which \<^verbatim>\<open>is_prime\<close> never uses.
\<close>

function is_prime_loop :: "nat \<Rightarrow> nat \<Rightarrow> bool" where
  "is_prime_loop n i =
     (if (i * i) mod 2 ^ 64 \<le> n
      then (if i = 0 then False
            else if n mod i = 0 then False
            else is_prime_loop n ((i + 2) mod 2 ^ 64))
      else True)"
  by pat_completeness auto
termination
proof (relation "measure (\<lambda>(n, i). if i \<le> 1 then 0 else if 2 ^ 64 \<le> i then 2 ^ 64 + 1 else 2 ^ 64 + 2 - i)")
  show "wf (measure (\<lambda>(n, i). if i \<le> 1 then 0 else if 2 ^ 64 \<le> i then 2 ^ 64 + 1 else 2 ^ 64 + 2 - i))"
    by simp
next
  fix n i :: nat
  assume a: "(i * i) mod 2 ^ 64 \<le> n" "i \<noteq> 0" "n mod i \<noteq> 0"
  let ?f = "\<lambda>i::nat. if i \<le> 1 then 0 else if 2 ^ 64 \<le> i then 2 ^ 64 + 1 else 2 ^ 64 + 2 - i"
  define m where "m = (i + 2) mod 2 ^ 64"
  from a have i2: "2 \<le> i" by (cases "i = 1") auto
  have m_lt: "m < (2 ^ 64 :: nat)" by (simp add: m_def)
  have m_eq: "m = i + 2" if "i + 2 < 2 ^ 64" using that by (simp add: m_def)
  have m_wrap: "m \<le> 1" if "\<not> i + 2 < 2 ^ 64" "i < 2 ^ 64"
  proof -
    from that have "i = 2 ^ 64 - 2 \<or> i = 2 ^ 64 - 1" by arith
    then show ?thesis by (elim disjE) (simp_all add: m_def)
  qed
  have "?f m < ?f i"
  proof (cases "i + 2 < 2 ^ 64")
    case True
    with m_eq i2 show ?thesis by simp
  next
    case False
    show ?thesis
    proof (cases "i < 2 ^ 64")
      case True
      with m_wrap False i2 show ?thesis by simp
    next
      case False
      with m_lt i2 show ?thesis by (simp split: if_splits) arith
    qed
  qed
  then show "((n, (i + 2) mod 2 ^ 64), (n, i)) \<in> measure (\<lambda>(n, i). ?f i)"
    unfolding m_def by (simp only: in_measure prod.case)
qed

definition is_prime :: "nat \<Rightarrow> bool" where
  "is_prime n =
     (if n < 2 then False
      else if n = 2 then True
      else if n mod 2 = 0 then False
      else is_prime_loop n 3)"

text \<open>\<^verbatim>\<open>while (!is_prime(n)) ++n;\<close> with the wrap-around of \<^verbatim>\<open>++n\<close>: after
  \<open>2 ^ 64 - 1\<close> come 0, 1 and 2, and 2 is prime, so this loop ends as well.\<close>

function next_prime :: "nat \<Rightarrow> nat" where
  "next_prime n = (if is_prime n then n else next_prime ((n + 1) mod 2 ^ 64))"
  by pat_completeness auto
termination
proof (relation "measure (\<lambda>n. if 2 ^ 64 \<le> n then 2 ^ 64 + 3 else if n \<le> 2 then 2 - n else 2 ^ 64 + 2 - n)")
  show "wf (measure (\<lambda>n. if 2 ^ 64 \<le> n then 2 ^ 64 + 3 else if n \<le> 2 then 2 - n else 2 ^ 64 + 2 - n))"
    by simp
next
  fix n :: nat
  assume np: "\<not> is_prime n"
  let ?f = "\<lambda>n::nat. if 2 ^ 64 \<le> n then 2 ^ 64 + 3 else if n \<le> 2 then 2 - n else 2 ^ 64 + 2 - n"
  define m where "m = (n + 1) mod 2 ^ 64"
  have "is_prime 2" by (simp add: is_prime_def)
  with np have n2: "n \<noteq> 2" by auto
  have m_lt: "m < (2 ^ 64 :: nat)" by (simp add: m_def)
  have m_eq: "m = n + 1" if "n + 1 < 2 ^ 64" using that by (simp add: m_def)
  have m_wrap: "m = 0" if "n + 1 = 2 ^ 64" using that by (simp add: m_def)
  have "?f m < ?f n"
  proof (cases "n + 1 < 2 ^ 64")
    case True
    with m_eq n2 show ?thesis by simp arith
  next
    case False
    show ?thesis
    proof (cases "n + 1 = 2 ^ 64")
      case True
      with m_wrap show ?thesis by simp
    next
      case False
      with \<open>\<not> n + 1 < 2 ^ 64\<close> have "2 ^ 64 \<le> n" by simp
      with m_lt show ?thesis by (simp split: if_splits) arith
    qed
  qed
  then show "((n + 1) mod 2 ^ 64, n) \<in> measure ?f"
    unfolding m_def by (simp only: in_measure)
qed

section \<open>The hash table\<close>

text \<open>
  \<^verbatim>\<open>class EmployeeHashTable\<close>. A chain of \<^verbatim>\<open>HashNode\<close>s, each owning its employee and the
  rest of the chain through \<^verbatim>\<open>unique_ptr\<close>, is the list of its employees from the head;
  \<^verbatim>\<open>table\<close> is the vector of the chains. \<^verbatim>\<open>element_count\<close> counts nodes that live in the
  address space, so \<^verbatim>\<open>++element_count\<close> stays below \<open>2 ^ 64\<close> and is the successor of a
  natural number. \<open>table_mutex\<close> is true while the \<^verbatim>\<open>std::mutex\<close> is held. The calls to
  \<^verbatim>\<open>Logger::log\<close> write a log file and do not touch the table; they are left out.
  Memory is not bounded: an allocation that fails (\<^verbatim>\<open>std::bad_alloc\<close>, \<^verbatim>\<open>std::length_error\<close>)
  ends the C++ call with an exception, and the properties below are about calls that
  return.
\<close>

record EmployeeHashTable =
  table :: "Employee list list"
  bucket_count :: nat
  element_count :: nat
  table_mutex :: bool

definition MAX_LOAD_FACTOR :: real where
  "MAX_LOAD_FACTOR = 0.75"

text \<open>
  \<^verbatim>\<open>load_factor\<close> takes no lock. The quotient is the exact one: the double quotient of two
  counts below \<open>2 ^ 52\<close> is above \<open>0.75\<close> exactly when the exact quotient is.
\<close>

definition load_factor :: "EmployeeHashTable \<Rightarrow> real" where
  "load_factor t = real (element_count t) / real (bucket_count t)"

text \<open>The duplicate scan of \<^verbatim>\<open>insert_internal\<close>, from the head of the chain.\<close>

fun chain_has_id :: "string \<Rightarrow> Employee list \<Rightarrow> bool" where
  "chain_has_id k [] = False"
| "chain_has_id k (e # next) = (if id_emp e = k then True else chain_has_id k next)"

text \<open>
  \<^verbatim>\<open>table[index]\<close> is read as \<open>table t ! index\<close>: \<open>index\<close> is a hash modulo
  \<open>bucket_count\<close>, below the length of the vector in every table whose vector has
  \<open>bucket_count\<close> chains.
\<close>

definition insert_internal :: "Employee \<Rightarrow> EmployeeHashTable \<Rightarrow> bool \<times> EmployeeHashTable" where
  "insert_internal emp t =
     (let index = hash (id_emp emp) (bucket_count t) in
      if chain_has_id (id_emp emp) (table t ! index) then (False, t)
      else (True, t\<lparr>table := (table t)[index := emp # (table t ! index)],
                     element_count := element_count t + 1\<rparr>))"

text \<open>
  The two loops of \<^verbatim>\<open>rehash\<close>: every chain of the old vector is consumed from its head,
  and the result of \<^verbatim>\<open>insert_internal\<close> is dropped.
\<close>

fun reinsert_chain :: "Employee list \<Rightarrow> EmployeeHashTable \<Rightarrow> EmployeeHashTable" where
  "reinsert_chain [] t = t"
| "reinsert_chain (e # next) t = reinsert_chain next (snd (insert_internal e t))"

fun reinsert_all :: "Employee list list \<Rightarrow> EmployeeHashTable \<Rightarrow> EmployeeHashTable" where
  "reinsert_all [] t = t"
| "reinsert_all (head # rest) t = reinsert_all rest (reinsert_chain head t)"

definition rehash :: "EmployeeHashTable \<Rightarrow> EmployeeHashTable" where
  "rehash t =
     (let new_bucket_count = next_prime ((bucket_count t * 2) mod 2 ^ 64);
          old_table = table t
      in reinsert_all old_table
           (t\<lparr>bucket_count := new_bucket_count,
              table := replicate new_bucket_count [],
              element_count := 0\<rparr>))"

text \<open>The constructor \<^verbatim>\<open>EmployeeHashTable(size_t initial_bucket_count = 17)\<close>.\<close>

definition EmployeeHashTable_new :: "nat \<Rightarrow> EmployeeHashTable" where
  "EmployeeHashTable_new initial_bucket_count =
     \<lparr>table = replicate (next_prime initial_bucket_count) [],
      bucket_count = next_prime initial_bucket_count,
      element_count = 0,
      table_mutex = False\<rparr>"

text \<open>
  A \<^verbatim>\<open>std::lock_guard\<close> on \<^verbatim>\<open>table_mutex\<close> as the first statement of a member function:
  while the mutex is held the call waits, and a call that waits for ever does not return
  (\<open>Blocked\<close>); otherwise the body runs with the mutex held, and the guard releases it when
  the function is left, by \<^verbatim>\<open>return\<close> or by an exception. The \<^verbatim>\<open>const\<close> member functions
  return a value only.
\<close>

datatype 'a call = Blocked | Returned 'a

definition lock_guard ::
  "EmployeeHashTable \<Rightarrow> (EmployeeHashTable \<Rightarrow> 'r \<times> EmployeeHashTable) \<Rightarrow> ('r \<times> EmployeeHashTable) call" where
  "lock_guard t body =
     (if table_mutex t then Blocked
      else (case body (t\<lparr>table_mutex := True\<rparr>) of
              (r, t') \<Rightarrow> Returned (r, t'\<lparr>table_mutex := False\<rparr>)))"

definition lock_guard_const :: "EmployeeHashTable \<Rightarrow> (EmployeeHashTable \<Rightarrow> 'r) \<Rightarrow> 'r call" where
  "lock_guard_const t body =
     (if table_mutex t then Blocked else Returned (body (t\<lparr>table_mutex := True\<rparr>)))"

text \<open>
  \<^verbatim>\<open>bool insert(const Employee& emp)\<close>; the exception of \<^verbatim>\<open>validate\<close> is rethrown.
  (\<^verbatim>\<open>insert\<close>, \<^verbatim>\<open>find\<close> and \<^verbatim>\<open>size\<close> carry the suffix \<open>_ht\<close>: the plain names are
  constants of HOL.)
\<close>

definition insert_ht ::
  "Employee \<Rightarrow> EmployeeHashTable \<Rightarrow> ((EmployeeException + bool) \<times> EmployeeHashTable) call" where
  "insert_ht emp t = lock_guard t (\<lambda>t.
     case validate emp of
       Inl ex \<Rightarrow> (Inl ex, t)
     | Inr _ \<Rightarrow>
        (case insert_internal emp t of
           (inserted, t1) \<Rightarrow>
             if inserted
             then (if load_factor t1 > MAX_LOAD_FACTOR then (Inr True, rehash t1)
                   else (Inr True, t1))
             else (Inr False, t1)))"

text \<open>
  \<^verbatim>\<open>bool remove(const std::string& id)\<close>. The scan returns the chain without the first
  node of that id, or nothing. \<^verbatim>\<open>--element_count\<close> wraps at 0.
\<close>

fun chain_remove :: "string \<Rightarrow> Employee list \<Rightarrow> Employee list option" where
  "chain_remove k [] = None"
| "chain_remove k (e # next) =
     (if id_emp e = k then Some next else map_option ((#) e) (chain_remove k next))"

definition remove :: "string \<Rightarrow> EmployeeHashTable \<Rightarrow> (bool \<times> EmployeeHashTable) call" where
  "remove k t = lock_guard t (\<lambda>t.
     let index = hash k (bucket_count t) in
     case chain_remove k (table t ! index) of
       Some chain' \<Rightarrow>
         (True, t\<lparr>table := (table t)[index := chain'],
                  element_count := (if element_count t = 0 then 2 ^ 64 - 1 else element_count t - 1)\<rparr>)
     | None \<Rightarrow> (False, t))"

text \<open>
  \<^verbatim>\<open>Employee* find(const std::string& id) const\<close>: the employee the returned pointer
  points to when the call returns, or \<open>None\<close> for \<^verbatim>\<open>nullptr\<close>.
\<close>

fun chain_find :: "string \<Rightarrow> Employee list \<Rightarrow> Employee option" where
  "chain_find k [] = None"
| "chain_find k (e # next) = (if id_emp e = k then Some e else chain_find k next)"

definition find_ht :: "string \<Rightarrow> EmployeeHashTable \<Rightarrow> Employee option call" where
  "find_ht k t = lock_guard_const t (\<lambda>t. chain_find k (table t ! hash k (bucket_count t)))"

text \<open>
  \<^verbatim>\<open>bool update(const std::string& id, const Employee& updated_emp)\<close>. The scan looks for
  the node first; \<^verbatim>\<open>updated_emp.validate()\<close> is called inside the branch that found it.
\<close>

fun chain_update :: "string \<Rightarrow> Employee \<Rightarrow> Employee list \<Rightarrow> (EmployeeException + Employee list) option" where
  "chain_update k updated_emp [] = None"
| "chain_update k updated_emp (e # next) =
     (if id_emp e = k
      then (case validate updated_emp of
              Inl ex \<Rightarrow> Some (Inl ex)
            | Inr _ \<Rightarrow> Some (Inr (updated_emp # next)))
      else map_option (map_sum (\<lambda>ex. ex) ((#) e)) (chain_update k updated_emp next))"

definition update ::
  "string \<Rightarrow> Employee \<Rightarrow> EmployeeHashTable \<Rightarrow> ((EmployeeException + bool) \<times> EmployeeHashTable) call" where
  "update k updated_emp t = lock_guard t (\<lambda>t.
     let index = hash k (bucket_count t) in
     case chain_update k updated_emp (table t ! index) of
       Some (Inr chain') \<Rightarrow> (Inr True, t\<lparr>table := (table t)[index := chain']\<rparr>)
     | Some (Inl ex) \<Rightarrow> (Inl ex, t)
     | None \<Rightarrow> (Inr False, t))"

text \<open>
  \<^verbatim>\<open>struct SearchCriteria\<close>; its optional fields carry the prefix \<open>c_\<close>. \<^verbatim>\<open>::tolower\<close> in
  the "C" locale, and \<^verbatim>\<open>std::string::find(...) != npos\<close> as \<open>str_contains\<close>.
\<close>

record SearchCriteria =
  c_id :: "string option"
  c_firstName :: "string option"
  c_lastName :: "string option"
  c_position :: "string option"
  c_department :: "Department option"
  c_minSalary :: "double option"
  c_maxSalary :: "double option"
  c_status :: "EmployeeStatus option"
  c_skill :: "string option"
  caseSensitive :: bool

definition empty_criteria :: SearchCriteria where
  "empty_criteria =
     \<lparr>c_id = None, c_firstName = None, c_lastName = None, c_position = None,
      c_department = None, c_minSalary = None, c_maxSalary = None, c_status = None,
      c_skill = None, caseSensitive = False\<rparr>"

definition tolower :: "char \<Rightarrow> char" where
  "tolower c = (if is_upper c then char_of ((of_char c :: nat) + 32) else c)"

fun starts_with :: "string \<Rightarrow> string \<Rightarrow> bool" where
  "starts_with s [] = True"
| "starts_with [] (c # sub) = False"
| "starts_with (d # s) (c # sub) = (d = c \<and> starts_with s sub)"

fun str_contains :: "string \<Rightarrow> string \<Rightarrow> bool" where
  "str_contains [] sub = (sub = [])"
| "str_contains (d # s) sub = (starts_with (d # s) sub \<or> str_contains s sub)"

definition contains_cs :: "bool \<Rightarrow> string \<Rightarrow> string \<Rightarrow> bool" where
  "contains_cs case_sensitive field wanted =
     (if case_sensitive then str_contains field wanted
      else str_contains (map tolower field) (map tolower wanted))"

definition matches :: "SearchCriteria \<Rightarrow> Employee \<Rightarrow> bool" where
  "matches criteria emp =
     ((case c_id criteria of Some k \<Rightarrow> id_emp emp = k | None \<Rightarrow> True) \<and>
      (case c_firstName criteria of
         Some w \<Rightarrow> contains_cs (caseSensitive criteria) (firstName emp) w | None \<Rightarrow> True) \<and>
      (case c_lastName criteria of
         Some w \<Rightarrow> contains_cs (caseSensitive criteria) (lastName emp) w | None \<Rightarrow> True) \<and>
      (case c_position criteria of
         Some w \<Rightarrow> contains_cs (caseSensitive criteria) (position emp) w | None \<Rightarrow> True) \<and>
      (case c_department criteria of Some d \<Rightarrow> department emp = d | None \<Rightarrow> True) \<and>
      (case c_minSalary criteria of Some m \<Rightarrow> \<not> double_less (salary emp) m | None \<Rightarrow> True) \<and>
      (case c_maxSalary criteria of Some m \<Rightarrow> \<not> double_less m (salary emp) | None \<Rightarrow> True) \<and>
      (case c_status criteria of Some st \<Rightarrow> status emp = st | None \<Rightarrow> True) \<and>
      (case c_skill criteria of
         Some w \<Rightarrow> list_ex (\<lambda>skill. contains_cs (caseSensitive criteria) skill w) (skills emp)
       | None \<Rightarrow> True))"

text \<open>
  \<^verbatim>\<open>search\<close> walks the vector from bucket 0 and every chain from its head, and pushes a
  copy of each employee that matches.
\<close>

fun search_chain :: "SearchCriteria \<Rightarrow> Employee list \<Rightarrow> Employee list \<Rightarrow> Employee list" where
  "search_chain criteria [] results = results"
| "search_chain criteria (emp # next) results =
     search_chain criteria next (if matches criteria emp then results @ [emp] else results)"

fun search_table :: "SearchCriteria \<Rightarrow> Employee list list \<Rightarrow> Employee list \<Rightarrow> Employee list" where
  "search_table criteria [] results = results"
| "search_table criteria (head # rest) results =
     search_table criteria rest (search_chain criteria head results)"

definition search :: "SearchCriteria \<Rightarrow> EmployeeHashTable \<Rightarrow> Employee list call" where
  "search criteria t = lock_guard_const t (\<lambda>t. search_table criteria (table t) [])"

definition get_all :: "EmployeeHashTable \<Rightarrow> Employee list call" where
  "get_all t = search empty_criteria t"

definition size_ht :: "EmployeeHashTable \<Rightarrow> nat call" where
  "size_ht t = lock_guard_const t element_count"

text \<open>
  \<^verbatim>\<open>get_statistics\<close> prints the numbers of this record. \<^verbatim>\<open>bucket_count - empty_buckets\<close>
  is a \<^verbatim>\<open>size_t\<close> difference.
\<close>

record Statistics =
  stat_bucket_count :: nat
  stat_element_count :: nat
  stat_load_factor :: real
  empty_buckets :: nat
  max_chain_length :: nat
  avg_chain_length :: real

fun scan_chains :: "Employee list list \<Rightarrow> nat \<times> nat \<times> nat \<Rightarrow> nat \<times> nat \<times> nat" where
  "scan_chains [] acc = acc"
| "scan_chains (head # rest) (max_len, n_empty, total_len) =
     scan_chains rest
       (if length head = 0 then (max_len, n_empty + 1, total_len)
        else (max max_len (length head), n_empty, total_len + length head))"

definition get_statistics :: "EmployeeHashTable \<Rightarrow> Statistics call" where
  "get_statistics t = lock_guard_const t (\<lambda>t.
     case scan_chains (table t) (0, 0, 0) of
       (max_len, n_empty, total_len) \<Rightarrow>
         let non_empty = (bucket_count t + 2 ^ 64 - n_empty) mod 2 ^ 64 in
         \<lparr>stat_bucket_count = bucket_count t,
          stat_element_count = element_count t,
          stat_load_factor = load_factor t,
          empty_buckets = n_empty,
          max_chain_length = max_len,
          avg_chain_length = (if non_empty > 0 then real total_len / real non_empty else 0)\<rparr>)"

section \<open>Vocabulary of the properties\<close>

text \<open>
  Primality, as the specification means it. The bounded form can be evaluated; the lemma
  \<open>prime_nat_iff\<close> below shows that it is the usual notion.
\<close>

definition prime_nat :: "nat \<Rightarrow> bool" where
  "prime_nat p = (1 < p \<and> (\<forall>d \<in> {2..<p}. \<not> d dvd p))"

text \<open>
  The employees a table stores, in the order in which \<^verbatim>\<open>rehash\<close> and \<^verbatim>\<open>search\<close> walk
  them, and the chain scan of \<^verbatim>\<open>find\<close> without its lock.
\<close>

definition stored :: "EmployeeHashTable \<Rightarrow> Employee list" where
  "stored t = concat (table t)"

definition lookup :: "string \<Rightarrow> EmployeeHashTable \<Rightarrow> Employee option" where
  "lookup k t = chain_find k (table t ! hash k (bucket_count t))"

text \<open>
  The invariants of the data model: the vector has \<open>bucket_count\<close> chains and at least
  one; every employee sits in the chain its id hashes to; no id is stored twice;
  \<open>element_count\<close> is the number of nodes.
\<close>

definition buckets_ok :: "EmployeeHashTable \<Rightarrow> bool" where
  "buckets_ok t = (length (table t) = bucket_count t \<and> 0 < bucket_count t)"

definition placed :: "EmployeeHashTable \<Rightarrow> bool" where
  "placed t =
     list_all (\<lambda>(i, chain). list_all (\<lambda>e. hash (id_emp e) (bucket_count t) = i) chain)
       (enumerate 0 (table t))"

definition keys_distinct :: "EmployeeHashTable \<Rightarrow> bool" where
  "keys_distinct t = distinct (map id_emp (stored t))"

definition counted :: "EmployeeHashTable \<Rightarrow> bool" where
  "counted t = (element_count t = length (stored t))"

definition table_inv :: "EmployeeHashTable \<Rightarrow> bool" where
  "table_inv t = (buckets_ok t \<and> placed t \<and> keys_distinct t \<and> counted t)"

definition ids_valid :: "EmployeeHashTable \<Rightarrow> bool" where
  "ids_valid t = (\<forall>e \<in> set (stored t). isValidID (id_emp e))"

text \<open>
  The tables that calls of \<^verbatim>\<open>insert\<close> build from a freshly constructed one, whatever each
  call returns, and what holds of all of them.
\<close>

inductive inserts_from :: "nat \<Rightarrow> EmployeeHashTable \<Rightarrow> bool" for n where
  fresh: "inserts_from n (EmployeeHashTable_new n)"
| step: "inserts_from n t \<Longrightarrow> insert_ht e t = Returned (r, t') \<Longrightarrow> inserts_from n t'"

definition insert_inv :: "EmployeeHashTable \<Rightarrow> bool" where
  "insert_inv t = (table_inv t \<and> \<not> table_mutex t \<and> ids_valid t \<and>
     2 \<le> bucket_count t \<and> 4 * element_count t \<le> 3 * bucket_count t)"

text \<open>A valid employee for the concrete runs below.\<close>

definition sample_employee :: "string \<Rightarrow> string \<Rightarrow> Employee" where
  "sample_employee k first_name =
     \<lparr>id_emp = k, firstName = first_name, lastName = ''Doe'', position = ''Engineer'',
      department = ENGINEERING, salary = Finite 50000, email = [], phone = [],
      hireDate = 0, status = ACTIVE, skills = [], managerId = [], accessLevel = BASIC\<rparr>"

text \<open>
  The tables that the constructor and the three mutating member functions build, in any
  order and with any arguments, and what holds of all of them. (The move operations, which
  leave the donor with a bucket count of 0, are not part of it.)
\<close>

inductive reachable :: "EmployeeHashTable \<Rightarrow> bool" where
  constructed: "reachable (EmployeeHashTable_new n)"
| inserted: "reachable t \<Longrightarrow> insert_ht e t = Returned (r, t') \<Longrightarrow> reachable t'"
| removed: "reachable t \<Longrightarrow> remove k t = Returned (b, t') \<Longrightarrow> reachable t'"
| updated: "reachable t \<Longrightarrow> update k u t = Returned (r, t') \<Longrightarrow> reachable t'"

definition reach_inv :: "EmployeeHashTable \<Rightarrow> bool" where
  "reach_inv t = (buckets_ok t \<and> counted t \<and> \<not> table_mutex t \<and> prime_nat (bucket_count t))"

text \<open>A caller that inserts a list of employees one after the other and keeps the results.\<close>

fun insert_all :: "Employee list \<Rightarrow> EmployeeHashTable \<Rightarrow>
    ((EmployeeException + bool) list \<times> EmployeeHashTable) call" where
  "insert_all [] t = Returned ([], t)"
| "insert_all (e # es) t =
     (case insert_ht e t of
        Blocked \<Rightarrow> Blocked
      | Returned (r, t') \<Rightarrow>
          (case insert_all es t' of
             Blocked \<Rightarrow> Blocked
           | Returned (rs, t'') \<Rightarrow> Returned (r # rs, t'')))"

text \<open>Thirteen valid employees with thirteen ids.\<close>

definition thirteen :: "Employee list" where
  "thirteen = map (\<lambda>k. sample_employee k ''Ann'')
     [''AA0000'', ''AA0001'', ''AA0002'', ''AA0003'', ''AA0004'', ''AA0005'', ''AA0006'',
      ''AA0007'', ''AA0008'', ''AA0009'', ''AA0010'', ''AA0011'', ''AA0012'']"

text \<open>
  The tables built by calls that never change an id: \<^verbatim>\<open>update\<close> is called with an employee
  of the id it looks for.
\<close>

inductive well_built :: "EmployeeHashTable \<Rightarrow> bool" where
  constructed: "well_built (EmployeeHashTable_new n)"
| inserted: "well_built t \<Longrightarrow> insert_ht e t = Returned (r, t') \<Longrightarrow> well_built t'"
| removed: "well_built t \<Longrightarrow> remove k t = Returned (b, t') \<Longrightarrow> well_built t'"
| updated: "well_built t \<Longrightarrow> id_emp u = k \<Longrightarrow> update k u t = Returned (r, t') \<Longrightarrow> well_built t'"

section \<open>Callers that share the table\<close>

text \<open>
  The member functions again, statement by statement, for several callers of one table.
  First the statements of \<^verbatim>\<open>remove\<close>, \<^verbatim>\<open>update\<close> and \<^verbatim>\<open>get_statistics\<close> between the
  \<^verbatim>\<open>lock_guard\<close> and the return, as in the definitions above.
\<close>

definition remove_scan :: "string \<Rightarrow> EmployeeHashTable \<Rightarrow> bool \<times> EmployeeHashTable" where
  "remove_scan k t =
     (let index = hash k (bucket_count t) in
      case chain_remove k (table t ! index) of
        Some chain' \<Rightarrow>
          (True, t\<lparr>table := (table t)[index := chain'],
                   element_count := (if element_count t = 0 then 2 ^ 64 - 1 else element_count t - 1)\<rparr>)
      | None \<Rightarrow> (False, t))"

definition update_scan ::
  "string \<Rightarrow> Employee \<Rightarrow> EmployeeHashTable \<Rightarrow> (EmployeeException + bool) \<times> EmployeeHashTable" where
  "update_scan k updated_emp t =
     (let index = hash k (bucket_count t) in
      case chain_update k updated_emp (table t ! index) of
        Some (Inr chain') \<Rightarrow> (Inr True, t\<lparr>table := (table t)[index := chain']\<rparr>)
      | Some (Inl ex) \<Rightarrow> (Inl ex, t)
      | None \<Rightarrow> (Inr False, t))"

definition statistics_scan :: "EmployeeHashTable \<Rightarrow> Statistics" where
  "statistics_scan t =
     (case scan_chains (table t) (0, 0, 0) of
        (max_len, n_empty, total_len) \<Rightarrow>
          let non_empty = (bucket_count t + 2 ^ 64 - n_empty) mod 2 ^ 64 in
          \<lparr>stat_bucket_count = bucket_count t,
           stat_element_count = element_count t,
           stat_load_factor = load_factor t,
           empty_buckets = n_empty,
           max_chain_length = max_len,
           avg_chain_length = (if non_empty > 0 then real total_len / real non_empty else 0)\<rparr>)"

text \<open>
  The public member functions, and what a call hands back to its caller: the exception of
  \<^verbatim>\<open>validate\<close>, a \<^verbatim>\<open>bool\<close>, the pointer of \<^verbatim>\<open>find\<close>, the vector of \<^verbatim>\<open>search\<close>, the quotient
  of \<^verbatim>\<open>load_factor\<close>, the count of \<^verbatim>\<open>size\<close>, or the numbers that \<^verbatim>\<open>get_statistics\<close> prints.
\<close>

datatype operation =
    Insert Employee
  | Remove string
  | Find string
  | Update string Employee
  | Search SearchCriteria
  | Get_all
  | Load_factor
  | Size
  | Get_statistics

datatype outcome =
    Thrown EmployeeException
  | Flag bool
  | Pointer "Employee option"
  | Copies "Employee list"
  | Ratio real
  | Count nat
  | Printed Statistics

datatype pc = Entry | Locked | Validated | Inserted | Rehashing | Leaving outcome

datatype caller = Idle | In_call operation pc | Got outcome

text \<open>
  One statement of a call. The program points follow the source: \<open>Entry\<close> before the
  first statement; \<open>Locked\<close> once the \<^verbatim>\<open>lock_guard\<close> holds the mutex; in \<^verbatim>\<open>insert\<close>,
  \<open>Validated\<close> after \<^verbatim>\<open>emp.validate()\<close> has returned, \<open>Inserted\<close> after \<^verbatim>\<open>insert_internal\<close>
  has returned \<^verbatim>\<open>true\<close>, \<open>Rehashing\<close> once the load factor was found above the maximum;
  \<open>Leaving\<close> when the function is left, by \<^verbatim>\<open>return\<close> or by the exception of \<^verbatim>\<open>validate\<close>,
  and the guard is about to release the mutex. The first statement of every member function
  but \<^verbatim>\<open>load_factor\<close> is the \<^verbatim>\<open>lock_guard\<close> (\<^verbatim>\<open>get_all\<close> calls \<^verbatim>\<open>search\<close>, which has it): a
  caller cannot take this step while the mutex is held (\<open>None\<close>). \<^verbatim>\<open>load_factor\<close> has no
  \<^verbatim>\<open>lock_guard\<close>: it reads \<open>element_count\<close> and \<open>bucket_count\<close> and returns, whatever the state
  of the mutex (\<^verbatim>\<open>insert\<close>, \<^verbatim>\<open>rehash\<close> and \<^verbatim>\<open>get_statistics\<close> call it with the mutex held, and a
  \<^verbatim>\<open>std::mutex\<close> cannot be locked twice by one caller). A scan of a chain, the walk over all
  chains and a whole rehash are one step each.
\<close>

definition statement ::
  "operation \<Rightarrow> pc \<Rightarrow> EmployeeHashTable \<Rightarrow> (caller \<times> EmployeeHashTable) option" where
  "statement op pc t =
     (case pc of
        Entry \<Rightarrow>
          (case op of
             Load_factor \<Rightarrow> Some (Got (Ratio (load_factor t)), t)
           | _ \<Rightarrow>
               if table_mutex t then None
               else Some (In_call op Locked, t\<lparr>table_mutex := True\<rparr>))
      | Locked \<Rightarrow>
          (case op of
             Insert emp \<Rightarrow>
               (case validate emp of
                  Inl ex \<Rightarrow> Some (In_call op (Leaving (Thrown ex)), t)
                | Inr _ \<Rightarrow> Some (In_call op Validated, t))
           | Remove k \<Rightarrow>
               (case remove_scan k t of
                  (removed, t') \<Rightarrow> Some (In_call op (Leaving (Flag removed)), t'))
           | Find k \<Rightarrow> Some (In_call op (Leaving (Pointer (lookup k t))), t)
           | Update k updated_emp \<Rightarrow>
               (case update_scan k updated_emp t of
                  (Inl ex, t') \<Rightarrow> Some (In_call op (Leaving (Thrown ex)), t')
                | (Inr updated, t') \<Rightarrow> Some (In_call op (Leaving (Flag updated)), t'))
           | Search criteria \<Rightarrow>
               Some (In_call op (Leaving (Copies (search_table criteria (table t) []))), t)
           | Get_all \<Rightarrow>
               Some (In_call op (Leaving (Copies (search_table empty_criteria (table t) []))), t)
           | Load_factor \<Rightarrow> None
           | Size \<Rightarrow> Some (In_call op (Leaving (Count (element_count t))), t)
           | Get_statistics \<Rightarrow> Some (In_call op (Leaving (Printed (statistics_scan t))), t))
      | Validated \<Rightarrow>
          (case op of
             Insert emp \<Rightarrow>
               (case insert_internal emp t of
                  (inserted, t') \<Rightarrow>
                    Some (In_call op (if inserted then Inserted else Leaving (Flag False)), t'))
           | _ \<Rightarrow> None)
      | Inserted \<Rightarrow>
          (case op of
             Insert emp \<Rightarrow>
               Some (In_call op
                 (if load_factor t > MAX_LOAD_FACTOR then Rehashing else Leaving (Flag True)), t)
           | _ \<Rightarrow> None)
      | Rehashing \<Rightarrow>
          (case op of
             Insert emp \<Rightarrow> Some (In_call op (Leaving (Flag True)), rehash t)
           | _ \<Rightarrow> None)
      | Leaving result \<Rightarrow> Some (Got result, t\<lparr>table_mutex := False\<rparr>))"

text \<open>
  A caller is in a call from the call to the return, and inside the member function once
  its first statement has run.
\<close>

fun in_call :: "caller \<Rightarrow> bool" where
  "in_call (In_call op pc) = True"
| "in_call c = False"

fun inside :: "caller \<Rightarrow> bool" where
  "inside (In_call op Entry) = False"
| "inside (In_call op pc) = True"
| "inside c = False"

text \<open>
  Several callers and one table. A caller that is not in a call may call any member
  function; a caller in a call may run its next statement, unless that is a \<^verbatim>\<open>lock_guard\<close>
  on a held mutex. An interleaving is a list of such events; \<open>run\<close> is \<open>None\<close> when one of
  them cannot happen.
\<close>

type_synonym system = "caller list \<times> EmployeeHashTable"

datatype event = Call nat operation | Step nat

fun perform :: "event \<Rightarrow> system \<Rightarrow> system option" where
  "perform (Call i op) (callers, t) =
     (if i < length callers \<and> \<not> in_call (callers ! i)
      then Some (callers[i := In_call op Entry], t) else None)"
| "perform (Step i) (callers, t) =
     (if i < length callers
      then (case callers ! i of
              In_call op pc \<Rightarrow>
                (case statement op pc t of
                   Some (c, t') \<Rightarrow> Some (callers[i := c], t')
                 | None \<Rightarrow> None)
            | _ \<Rightarrow> None)
      else None)"

fun run :: "event list \<Rightarrow> system \<Rightarrow> system option" where
  "run [] s = Some s"
| "run (ev # evs) s = (case perform ev s of None \<Rightarrow> None | Some s' \<Rightarrow> run evs s')"

text \<open>
  A caller that runs alone until its call has returned, or until \<open>fuel\<close> statements have
  run, or for ever on a mutex that nobody releases.
\<close>

fun complete :: "nat \<Rightarrow> caller \<Rightarrow> EmployeeHashTable \<Rightarrow> caller \<times> EmployeeHashTable" where
  "complete 0 c t = (c, t)"
| "complete (Suc fuel) (In_call op pc) t =
     (case statement op pc t of
        Some (c, t') \<Rightarrow> complete fuel c t'
      | None \<Rightarrow> (In_call op pc, t))"
| "complete (Suc fuel) c t = (c, t)"

text \<open>What the caller of \<^verbatim>\<open>insert\<close> or \<^verbatim>\<open>update\<close> gets: the exception or the \<^verbatim>\<open>bool\<close>.\<close>

fun thrown_or_flag :: "EmployeeException + bool \<Rightarrow> outcome" where
  "thrown_or_flag (Inl ex) = Thrown ex"
| "thrown_or_flag (Inr b) = Flag b"

text \<open>
  Mutual exclusion: the mutex is held exactly when some caller is inside a member function,
  and no two callers are.
\<close>

definition exclusive :: "system \<Rightarrow> bool" where
  "exclusive s =
     (case s of (callers, t) \<Rightarrow>
        (table_mutex t \<longleftrightarrow> (\<exists>i < length callers. inside (callers ! i))) \<and>
        (\<forall>i < length callers. \<forall>j < length callers.
           inside (callers ! i) \<and> inside (callers ! j) \<longrightarrow> i = j))"

section \<open>The prime sizer\<close>

text \<open>
  Whenever \<^verbatim>\<open>is_prime\<close> answers \<^verbatim>\<open>true\<close> the number is prime, for every 64-bit argument:
  the loop has then tried every odd divisor up to the square root before its square could
  wrap. \<^verbatim>\<open>next_prime\<close> always returns, and returns a number that \<^verbatim>\<open>is_prime\<close> accepts.
\<close>

declare is_prime_loop.simps [simp del]
declare next_prime.simps [simp del]

lemma prime_nat_iff: "prime_nat p \<longleftrightarrow> 1 < p \<and> (\<forall>m. m dvd p \<longrightarrow> m = 1 \<or> m = p)"
proof
  assume p: "prime_nat p"
  show "1 < p \<and> (\<forall>m. m dvd p \<longrightarrow> m = 1 \<or> m = p)"
  proof (intro conjI allI impI)
    show "1 < p" using p by (simp add: prime_nat_def)
  next
    fix m assume m: "m dvd p"
    have "p \<noteq> 0" using p by (simp add: prime_nat_def)
    with m have "m \<le> p" "m \<noteq> 0" by (auto dest: dvd_imp_le)
    show "m = 1 \<or> m = p"
    proof (rule ccontr)
      assume "\<not> (m = 1 \<or> m = p)"
      with \<open>m \<le> p\<close> \<open>m \<noteq> 0\<close> have "m \<in> {2..<p}" by auto
      with p m show False by (auto simp: prime_nat_def)
    qed
  qed
next
  assume "1 < p \<and> (\<forall>m. m dvd p \<longrightarrow> m = 1 \<or> m = p)"
  then show "prime_nat p" by (auto simp: prime_nat_def)
qed

lemma is_prime_loop_sound:
  "is_prime_loop n i \<Longrightarrow> odd i \<Longrightarrow> 3 \<le> i \<Longrightarrow> i < 2 ^ 64 \<Longrightarrow> 3 \<le> n \<Longrightarrow>
   i \<le> j \<Longrightarrow> odd j \<Longrightarrow> j * j \<le> n \<Longrightarrow> \<not> j dvd n"
proof (induction n i rule: is_prime_loop.induct)
  case (1 n i)
  have ii: "i * i \<le> j * j" using \<open>i \<le> j\<close> by (simp add: mult_le_mono)
  show ?case
  proof (cases "(i * i) mod 2 ^ 64 \<le> n")
    case False
    have "(i * i) mod 2 ^ 64 \<le> i * i" by simp
    with ii \<open>j * j \<le> n\<close> False show ?thesis by linarith
  next
    case True
    with "1.prems"(1) have nd: "n mod i \<noteq> 0" and rec: "is_prime_loop n ((i + 2) mod 2 ^ 64)"
      by (auto simp: is_prime_loop.simps [of n i] split: if_splits)
    show ?thesis
    proof (cases "i + 2 < 2 ^ 64")
      case False
      with \<open>i < 2 ^ 64\<close> have "i = 2 ^ 64 - 2 \<or> i = 2 ^ 64 - 1" by arith
      with \<open>odd i\<close> have "i = 2 ^ 64 - 1" by auto
      then have "(i + 2) mod 2 ^ 64 = 1" by simp
      with rec have "is_prime_loop n 1" by simp
      moreover have "\<not> is_prime_loop n 1"
        using \<open>3 \<le> n\<close> by (subst is_prime_loop.simps) simp
      ultimately show ?thesis by simp
    next
      case t: True
      then have e: "(i + 2) mod 2 ^ 64 = i + 2" by simp
      show ?thesis
      proof (cases "j = i")
        case True
        with nd show ?thesis by (simp add: dvd_eq_mod_eq_0)
      next
        case False
        with \<open>i \<le> j\<close> \<open>odd i\<close> \<open>odd j\<close> have "i + 2 \<le> j" by presburger
        from "1.IH" [OF True _ nd] "1.prems" rec e t this show ?thesis
          using \<open>3 \<le> i\<close> by auto
      qed
    qed
  qed
qed

lemma is_prime_sound: "is_prime n \<Longrightarrow> prime_nat n"
proof -
  assume p: "is_prime n"
  then have n2: "2 \<le> n" by (auto simp: is_prime_def split: if_splits)
  show "prime_nat n"
  proof (cases "n = 2")
    case True
    then show ?thesis by (simp add: prime_nat_def)
  next
    case False
    with p n2 have odd: "odd n" and loop: "is_prime_loop n 3" and n3: "3 \<le> n"
      by (auto simp: is_prime_def split: if_splits)
    show ?thesis unfolding prime_nat_def
    proof (intro conjI ballI notI)
      show "1 < n" using n2 by simp
    next
      fix d assume d: "d \<in> {2..<n}" and dv: "d dvd n"
      then obtain k where k: "n = d * k" by (auto elim: dvdE)
      with d have k2: "2 \<le> k" by (cases "k = 0"; cases "k = 1") auto
      have od: "odd d" "odd k" using odd k by auto
      define j where "j = min d k"
      have "3 \<le> d" using od(1) d by (cases "d = 2") auto
      moreover have "3 \<le> k" using od(2) k2 by (cases "k = 2") auto
      ultimately have "odd j" "3 \<le> j" "j dvd n" using od k by (auto simp: j_def min_def)
      moreover have "j * j \<le> n" unfolding k j_def by (auto simp: min_def intro: mult_le_mono)
      ultimately show False using is_prime_loop_sound [OF loop _ _ _ n3, of j] by simp
    qed
  qed
qed

lemma is_prime_next_prime: "is_prime (next_prime n)"
  by (induction n rule: next_prime.induct) (subst next_prime.simps, auto)

lemma next_prime_bounds:
  "is_prime P \<Longrightarrow> n \<le> P \<Longrightarrow> P < 2 ^ 64 \<Longrightarrow> n \<le> next_prime n \<and> next_prime n \<le> P"
proof (induction n rule: next_prime.induct)
  case (1 n)
  show ?case
  proof (cases "is_prime n")
    case True
    then show ?thesis using "1.prems" by (subst next_prime.simps, simp)+
  next
    case False
    with "1.prems" have "n \<noteq> P" by auto
    with "1.prems" have lt: "n + 1 \<le> P" by simp
    with "1.prems" have e: "(n + 1) mod 2 ^ 64 = n + 1" by simp
    from "1.IH" [OF False] "1.prems" lt e have "n + 1 \<le> next_prime (n + 1) \<and> next_prime (n + 1) \<le> P"
      by simp
    then show ?thesis using False e by (subst next_prime.simps, simp)+
  qed
qed

lemma next_prime_pos: "0 < next_prime n"
  using is_prime_sound [OF is_prime_next_prime, of n] by (simp add: prime_nat_def)

lemma next_prime_ge2: "2 \<le> next_prime n"
  using is_prime_sound [OF is_prime_next_prime, of n] by (simp add: prime_nat_def)

subsection \<open>Completeness of is_prime below the wrap-around\<close>

text \<open>
  Below \<open>(2 ^ 32 - 1)\<^sup>2 = 18446744065119617025\<close> the loop of \<^verbatim>\<open>is_prime\<close> stops before
  \<^verbatim>\<open>i * i\<close> wraps, so every prime is recognised and \<^verbatim>\<open>next_prime\<close> finds the least one.
\<close>

lemma is_prime_loop_complete:
  "prime_nat n \<Longrightarrow> n < 18446744065119617025 \<Longrightarrow> odd i \<Longrightarrow> 3 \<le> i \<Longrightarrow> i \<le> 4294967295 \<Longrightarrow>
   is_prime_loop n i"
proof (induction n i rule: is_prime_loop.induct)
  case (1 n i)
  have sq: "i * i \<le> 4294967295 * 4294967295" using \<open>i \<le> 4294967295\<close> by (intro mult_le_mono)
  then have m: "(i * i) mod 2 ^ 64 = i * i" by simp
  show ?case
  proof (cases "i * i \<le> n")
    case False
    then show ?thesis using m by (subst is_prime_loop.simps) simp
  next
    case True
    have "i * 2 \<le> i * i" using \<open>3 \<le> i\<close> by (intro mult_le_mono) simp_all
    with True \<open>3 \<le> i\<close> have "i < n" by linarith
    then have "i \<in> {2..<n}" using \<open>3 \<le> i\<close> by simp
    with \<open>prime_nat n\<close> have nd: "\<not> i dvd n" by (simp add: prime_nat_def)
    then have nm: "n mod i \<noteq> 0" by (simp add: dvd_eq_mod_eq_0)
    have "i \<noteq> 4294967295"
    proof
      assume "i = 4294967295"
      with True \<open>n < 18446744065119617025\<close> show False by simp
    qed
    with \<open>i \<le> 4294967295\<close> \<open>odd i\<close> have i2: "i + 2 \<le> 4294967295" by presburger
    then have e: "(i + 2) mod 2 ^ 64 = i + 2" by simp
    have "is_prime_loop n (i + 2)"
      using "1.IH" [unfolded m e, OF True _ nm] "1.prems" i2 \<open>3 \<le> i\<close> by simp
    then show ?thesis using True nm \<open>3 \<le> i\<close> m e
      by (subst is_prime_loop.simps) simp
  qed
qed

lemma is_prime_complete:
  assumes "prime_nat n" "n < 18446744065119617025"
  shows "is_prime n"
proof (cases "n = 2")
  case True
  then show ?thesis by (simp add: is_prime_def)
next
  case False
  with assms(1) have n3: "3 \<le> n" by (simp add: prime_nat_def)
  then have "2 \<in> {2..<n}" by simp
  with assms(1) have "\<not> 2 dvd n" unfolding prime_nat_def by blast
  then have "odd n" by simp
  then have "n mod 2 \<noteq> 0" by presburger
  moreover have "is_prime_loop n 3"
    by (rule is_prime_loop_complete [OF assms]) simp_all
  ultimately show ?thesis using n3 by (simp add: is_prime_def)
qed

lemma next_prime_least:
  assumes "prime_nat p" "n \<le> p" "p < 18446744065119617025"
  shows "prime_nat (next_prime n) \<and> n \<le> next_prime n \<and>
         (\<forall>q. prime_nat q \<and> n \<le> q \<longrightarrow> next_prime n \<le> q)"
proof (intro conjI allI impI)
  show "prime_nat (next_prime n)" by (rule is_prime_sound [OF is_prime_next_prime])
next
  have ip: "is_prime p" by (rule is_prime_complete [OF assms(1,3)])
  have p64: "p < 2 ^ 64" using assms(3) by simp
  from next_prime_bounds [OF ip assms(2) p64] show "n \<le> next_prime n" by simp
next
  fix q assume q: "prime_nat q \<and> n \<le> q"
  have ip: "is_prime p" by (rule is_prime_complete [OF assms(1,3)])
  have p64: "p < 2 ^ 64" using assms(3) by simp
  show "next_prime n \<le> q"
  proof (cases "q < 18446744065119617025")
    case True
    with q have iq: "is_prime q" by (simp add: is_prime_complete)
    have "q < 2 ^ 64" using True by simp
    from next_prime_bounds [OF iq _ this] q show ?thesis by simp
  next
    case False
    with next_prime_bounds [OF ip assms(2) p64] assms(3) show ?thesis by simp
  qed
qed

subsection \<open>Evaluating the sizer\<close>

text \<open>
  Below \<open>2 ^ 32 - 2\<close> neither the square nor the step of the loop of \<^verbatim>\<open>is_prime\<close> wraps.
  The loop then finds 18026677 prime, which lies above twice every bucket count at which a
  table of valid, distinct ids can exceed the load factor.
\<close>

lemma next_prime_small: "next_prime 2 = 2" "next_prime 3 = 3" "next_prime 4 = 5"
  "next_prime 17 = 17" "next_prime 34 = 37"
  by (simp_all add: next_prime.simps is_prime_def is_prime_loop.simps)

lemma next_prime_max: "next_prime 18446744073709551615 = 2"
  by (simp add: next_prime.simps is_prime_def is_prime_loop.simps)

lemma prime_small: "prime_nat 17" "prime_nat 37"
  by (rule is_prime_sound, simp add: is_prime_def is_prime_loop.simps)+

lemma is_prime_loop_step:
  assumes "i < 4294967294" "i \<noteq> 0"
  shows "is_prime_loop n i =
     (if i * i \<le> n then (if n mod i = 0 then False else is_prime_loop n (i + 2)) else True)"
proof -
  have "i * i < (4294967294 * 4294967294 :: nat)"
    using assms by (intro mult_strict_mono) simp_all
  then have a: "(i * i) mod 2 ^ 64 = i * i"
    by simp
  have b: "(i + 2) mod 2 ^ 64 = i + 2" using assms by simp
  show ?thesis using assms
    by (subst is_prime_loop.simps) (simp only: a b if_False)
qed

lemma big_prime: "is_prime 18026677"
  by (simp add: is_prime_def is_prime_loop_step)

section \<open>Valid ids\<close>

text \<open>
  A valid id is two capitals and four digits, so there are at most \<open>26\<^sup>2 * 10\<^sup>4\<close> of them.
\<close>

lemma card_upper: "finite {c. is_upper c} \<and> card {c. is_upper c} \<le> 26"
proof -
  have sub: "{c. is_upper c} \<subseteq> char_of ` {65..(90::nat)}"
  proof
    fix c assume "c \<in> {c. is_upper c}"
    then have "(of_char c :: nat) \<in> {65..90}" by (simp add: is_upper_def)
    moreover have "c = char_of (of_char c :: nat)" by simp
    ultimately show "c \<in> char_of ` {65..(90::nat)}" by blast
  qed
  have "card (char_of ` {65..(90::nat)} :: char set) \<le> card {65..(90::nat)}"
    by (rule card_image_le) simp
  then have "card (char_of ` {65..(90::nat)} :: char set) \<le> 26" by simp
  moreover have "card {c. is_upper c} \<le> card (char_of ` {65..(90::nat)} :: char set)"
    by (rule card_mono [OF _ sub]) simp
  ultimately show ?thesis by simp
qed

lemma card_digit: "finite {c. is_digit c} \<and> card {c. is_digit c} \<le> 10"
proof -
  have sub: "{c. is_digit c} \<subseteq> char_of ` {48..(57::nat)}"
  proof
    fix c assume "c \<in> {c. is_digit c}"
    then have "(of_char c :: nat) \<in> {48..57}" by (simp add: is_digit_def)
    moreover have "c = char_of (of_char c :: nat)" by simp
    ultimately show "c \<in> char_of ` {48..(57::nat)}" by blast
  qed
  have "card (char_of ` {48..(57::nat)} :: char set) \<le> card {48..(57::nat)}"
    by (rule card_image_le) simp
  then have "card (char_of ` {48..(57::nat)} :: char set) \<le> 10" by simp
  moreover have "card {c. is_digit c} \<le> card (char_of ` {48..(57::nat)} :: char set)"
    by (rule card_mono [OF _ sub]) simp
  ultimately show ?thesis by simp
qed

lemma valid_id_shape:
  assumes "isValidID s"
  shows "\<exists>a b c d e f. s = [a, b, c, d, e, f] \<and> is_upper a \<and> is_upper b \<and>
           is_digit c \<and> is_digit d \<and> is_digit e \<and> is_digit f"
proof -
  from assms have len: "length s = 6" by (simp add: isValidID_def)
  then obtain a b c d e f where s: "s = [a, b, c, d, e, f]"
    by (auto simp: length_Suc_conv eval_nat_numeral)
  with assms show ?thesis by (simp add: isValidID_def)
qed

lemma card_valid_ids: "finite {s. isValidID s} \<and> card {s. isValidID s} \<le> 6760000"
proof -
  let ?U = "{c. is_upper c}" and ?D = "{c. is_digit c}"
  let ?P = "?U \<times> ?U \<times> ?D \<times> ?D \<times> ?D \<times> ?D"
  let ?f = "\<lambda>(a, b, c, d, e, f). [a, b, c, d, e, f :: char]"
  have fU: "finite ?U" and cU: "card ?U \<le> 26" using card_upper by auto
  have fD: "finite ?D" and cD: "card ?D \<le> 10" using card_digit by auto
  have fin: "finite ?P" using fU fD by simp
  have "card ?P = card ?U * (card ?U * (card ?D * (card ?D * (card ?D * card ?D))))"
    by (simp add: card_cartesian_product)
  also have "\<dots> \<le> 26 * (26 * (10 * (10 * (10 * 10))))"
    by (intro mult_le_mono cU cD)
  finally have cP: "card ?P \<le> 6760000" by simp
  have sub: "{s. isValidID s} \<subseteq> ?f ` ?P"
  proof
    fix s assume "s \<in> {s. isValidID s}"
    then obtain a b c d e f where "s = [a, b, c, d, e, f]" "is_upper a" "is_upper b"
        "is_digit c" "is_digit d" "is_digit e" "is_digit f"
      using valid_id_shape by blast
    then have "s = ?f (a, b, c, d, e, f)" "(a, b, c, d, e, f) \<in> ?P" by auto
    then show "s \<in> ?f ` ?P" by blast
  qed
  have "card (?f ` ?P) \<le> card ?P" by (rule card_image_le [OF fin])
  with cP have "card (?f ` ?P) \<le> 6760000" by simp
  moreover have "card {s. isValidID s} \<le> card (?f ` ?P)"
    by (rule card_mono [OF _ sub]) (use fin in simp)
  moreover have "finite {s. isValidID s}" by (rule finite_subset [OF sub]) (use fin in simp)
  ultimately show ?thesis by simp
qed

lemma distinct_valid_ids_bound:
  assumes "distinct ks" "\<forall>k \<in> set ks. isValidID k"
  shows "length ks \<le> 6760000"
proof -
  have "length ks = card (set ks)" using assms(1) by (simp add: distinct_card)
  also have "\<dots> \<le> card {s. isValidID s}"
    by (rule card_mono) (use assms(2) card_valid_ids in auto)
  also have "\<dots> \<le> 6760000" using card_valid_ids by simp
  finally show ?thesis .
qed

lemma validate_id: "validate e = Inr u \<Longrightarrow> isValidID (id_emp e)"
  by (simp add: validate_def split: if_splits)

section \<open>Chains and the vector of chains\<close>

lemma placed_iff:
  "placed t \<longleftrightarrow>
     (\<forall>i < length (table t). \<forall>e \<in> set (table t ! i). hash (id_emp e) (bucket_count t) = i)"
  unfolding placed_def list_all_length [of _ "enumerate 0 (table t)"]
  by (simp add: nth_enumerate_eq list_all_iff)

lemma chain_has_id_iff: "chain_has_id k c \<longleftrightarrow> k \<in> id_emp ` set c"
  by (induction c) auto

lemma chain_find_eq_find: "chain_find k c = List.find (\<lambda>e. id_emp e = k) c"
  by (induction c) auto

lemma chain_find_None_iff: "chain_find k c = None \<longleftrightarrow> k \<notin> id_emp ` set c"
  by (induction c) auto

lemma chain_find_SomeD: "chain_find k c = Some e \<Longrightarrow> e \<in> set c \<and> id_emp e = k"
  by (induction c) (auto split: if_splits)

lemma chain_find_distinct:
  "distinct (map id_emp c) \<Longrightarrow> e \<in> set c \<Longrightarrow> chain_find (id_emp e) c = Some e"
  by (induction c) (auto simp: rev_image_eqI)

lemma find_append_first:
  "\<forall>x \<in> set xs. \<not> P x \<Longrightarrow> P y \<Longrightarrow> List.find P (xs @ y # ys) = Some y"
  by (induction xs) auto

lemma chain_remove_length: "chain_remove k c = Some c' \<Longrightarrow> length c = Suc (length c')"
  by (induction c arbitrary: c') (auto split: if_splits)

lemma chain_remove_mset:
  "chain_remove k c = Some c' \<Longrightarrow> \<exists>x. mset c = add_mset x (mset c')"
proof (induction c arbitrary: c')
  case Nil
  then show ?case by simp
next
  case (Cons e c)
  show ?case
  proof (cases "id_emp e = k")
    case True
    with Cons.prems show ?thesis by auto
  next
    case False
    with Cons.prems obtain c'' where c'': "chain_remove k c = Some c''" "c' = e # c''"
      by (cases "chain_remove k c") auto
    from Cons.IH [OF c''(1)] obtain x where "mset c = add_mset x (mset c'')" by blast
    with c''(2) show ?thesis by (intro exI [of _ x]) simp
  qed
qed

lemma chain_update_None_iff: "chain_update k u c = None \<longleftrightarrow> chain_find k c = None"
  by (induction c) (auto split: sum.splits)

lemma chain_update_invalid:
  "validate u = Inl ex \<Longrightarrow> chain_find k c = Some old \<Longrightarrow> chain_update k u c = Some (Inl ex)"
  by (induction c) (auto split: if_splits)

lemma chain_update_length: "chain_update k u c = Some (Inr c') \<Longrightarrow> length c' = length c"
proof (induction c arbitrary: c')
  case Nil
  then show ?case by simp
next
  case (Cons e c)
  show ?case
  proof (cases "id_emp e = k")
    case True
    with Cons.prems show ?thesis by (auto split: sum.splits)
  next
    case False
    with Cons.prems obtain c'' where "chain_update k u c = Some (Inr c'')" "c' = e # c''"
      by (cases "chain_update k u c") (auto simp: map_sum_def split: sum.splits)
    with Cons.IH show ?thesis by simp
  qed
qed

lemma chain_update_same_key:
  "chain_update k u c = Some (Inr c') \<Longrightarrow> id_emp u = k \<Longrightarrow>
   map id_emp c' = map id_emp c \<and> set c' \<subseteq> insert u (set c)"
proof (induction c arbitrary: c')
  case Nil
  then show ?case by simp
next
  case (Cons e c)
  show ?case
  proof (cases "id_emp e = k")
    case True
    with Cons.prems show ?thesis by (auto split: sum.splits)
  next
    case False
    with Cons.prems obtain c'' where c'': "chain_update k u c = Some (Inr c'')" "c' = e # c''"
      by (cases "chain_update k u c") (auto simp: map_sum_def split: sum.splits)
    from Cons.IH [OF c''(1) Cons.prems(2)] c''(2) show ?thesis by auto
  qed
qed

lemma chain_update_valid:
  assumes "validate u = Inr x"
  shows "chain_find k c = Some old \<Longrightarrow>
    \<exists>c'. chain_update k u c = Some (Inr c') \<and> u \<in> set c' \<and>
      (length (filter (\<lambda>e. id_emp e = k) c) \<le> 1 \<longrightarrow> id_emp u \<noteq> k \<longrightarrow> chain_find k c' = None)"
proof (induction c)
  case Nil
  then show ?case by simp
next
  case (Cons e c)
  show ?case
  proof (cases "id_emp e = k")
    case True
    have "length (filter (\<lambda>e. id_emp e = k) (e # c)) \<le> 1 \<Longrightarrow> chain_find k c = None"
      using True by (auto simp: chain_find_None_iff filter_empty_conv)
    then show ?thesis using True assms by auto
  next
    case False
    with Cons.prems have "chain_find k c = Some old" by simp
    from Cons.IH [OF this] obtain c' where c': "chain_update k u c = Some (Inr c')" "u \<in> set c'"
      "length (filter (\<lambda>e. id_emp e = k) c) \<le> 1 \<longrightarrow> id_emp u \<noteq> k \<longrightarrow> chain_find k c' = None"
      by blast
    then show ?thesis using False by simp
  qed
qed

lemma hash_less: "0 < n \<Longrightarrow> hash k n < n"
  by (simp add: hash_def)

lemma concat_split:
  "i < length xss \<Longrightarrow> concat xss = concat (take i xss) @ xss ! i @ concat (drop (Suc i) xss)"
  by (metis append_Cons append_Nil concat.simps(2) concat_append id_take_nth_drop)

lemma concat_update:
  "i < length xss \<Longrightarrow> concat (xss[i := c]) = concat (take i xss) @ c @ concat (drop (Suc i) xss)"
  by (simp add: upd_conv_take_nth_drop)

lemma mset_concat_cons:
  "i < length xss \<Longrightarrow> mset (concat (xss[i := x # xss ! i])) = add_mset x (mset (concat xss))"
proof -
  assume i: "i < length xss"
  have "mset (concat xss) =
          mset (concat (take i xss)) + mset (xss ! i) + mset (concat (drop (Suc i) xss))"
    by (subst concat_split [OF i]) simp
  moreover have "mset (concat (xss[i := x # xss ! i])) =
          mset (concat (take i xss)) + add_mset x (mset (xss ! i)) + mset (concat (drop (Suc i) xss))"
    by (subst concat_update [OF i]) simp
  ultimately show ?thesis by simp
qed

lemma length_concat_cons:
  "i < length xss \<Longrightarrow> length (concat (xss[i := x # xss ! i])) = Suc (length (concat xss))"
  using mset_concat_cons [of i xss x] by (metis size_add_mset size_mset)

lemma set_concat_cons:
  "i < length xss \<Longrightarrow> set (concat (xss[i := x # xss ! i])) = insert x (set (concat xss))"
  using mset_concat_cons [of i xss x] by (metis set_mset_add_mset_insert set_mset_mset)

lemma length_concat_update:
  "i < length xss \<Longrightarrow>
   length (concat (xss[i := c])) + length (xss ! i) = length (concat xss) + length c"
proof -
  assume i: "i < length xss"
  have "length (concat xss) =
          length (concat (take i xss)) + length (xss ! i) + length (concat (drop (Suc i) xss))"
    by (subst concat_split [OF i]) simp
  moreover have "length (concat (xss[i := c])) =
          length (concat (take i xss)) + length c + length (concat (drop (Suc i) xss))"
    by (subst concat_update [OF i]) simp
  ultimately show ?thesis by simp
qed

lemma distinct_concat_chain:
  "distinct (map f (concat xss)) \<Longrightarrow> c \<in> set xss \<Longrightarrow> distinct (map f c)"
  by (induction xss) auto

section \<open>insert_internal\<close>

lemma insert_internal_dup:
  "chain_has_id (id_emp e) (table t ! hash (id_emp e) (bucket_count t)) \<Longrightarrow>
   insert_internal e t = (False, t)"
  by (simp add: insert_internal_def)

lemma insert_internal_new:
  "\<not> chain_has_id (id_emp e) (table t ! hash (id_emp e) (bucket_count t)) \<Longrightarrow>
   insert_internal e t =
     (True, t\<lparr>table := (table t)[hash (id_emp e) (bucket_count t) :=
                          e # (table t ! hash (id_emp e) (bucket_count t))],
              element_count := element_count t + 1\<rparr>)"
  by (simp add: insert_internal_def Let_def)

lemma insert_internal_frame:
  "bucket_count (snd (insert_internal e t)) = bucket_count t"
  "table_mutex (snd (insert_internal e t)) = table_mutex t"
  "length (table (snd (insert_internal e t))) = length (table t)"
  by (simp_all add: insert_internal_def Let_def)

lemma insert_internal_buckets_ok:
  "buckets_ok t \<Longrightarrow> buckets_ok (snd (insert_internal e t))"
  by (simp add: buckets_ok_def insert_internal_frame)

lemma insert_internal_fst:
  "fst (insert_internal e t) \<longleftrightarrow> lookup (id_emp e) t = None"
  by (simp add: insert_internal_def Let_def lookup_def chain_has_id_iff chain_find_None_iff)

lemma insert_internal_not_inserted:
  "\<not> fst (insert_internal e t) \<Longrightarrow> snd (insert_internal e t) = t"
  by (auto simp: insert_internal_def Let_def split: if_splits)

lemma insert_internal_element_count:
  "fst (insert_internal e t) \<Longrightarrow>
   element_count (snd (insert_internal e t)) = element_count t + 1"
  by (auto simp: insert_internal_def Let_def split: if_splits)

lemma insert_internal_stored:
  assumes "buckets_ok t"
  shows "mset (stored (snd (insert_internal e t))) =
           (if fst (insert_internal e t) then add_mset e (mset (stored t)) else mset (stored t))"
proof -
  have "hash (id_emp e) (bucket_count t) < length (table t)"
    using assms by (simp add: buckets_ok_def hash_less)
  then show ?thesis
    by (simp add: insert_internal_def Let_def stored_def mset_concat_cons)
qed

lemma stored_after_insert_internal:
  assumes "buckets_ok t" "fst (insert_internal e t)"
  shows "stored (snd (insert_internal e t)) =
     concat (take (hash (id_emp e) (bucket_count t)) (table t)) @
     e # table t ! hash (id_emp e) (bucket_count t) @
     concat (drop (Suc (hash (id_emp e) (bucket_count t))) (table t))"
proof -
  have i: "hash (id_emp e) (bucket_count t) < length (table t)"
    using assms(1) by (simp add: buckets_ok_def hash_less)
  from assms(2) have "\<not> chain_has_id (id_emp e) (table t ! hash (id_emp e) (bucket_count t))"
    by (auto simp: insert_internal_def Let_def split: if_splits)
  then show ?thesis using i
    by (simp add: insert_internal_new stored_def concat_update)
qed

lemma insert_internal_counted:
  assumes "buckets_ok t" "counted t"
  shows "counted (snd (insert_internal e t))"
proof -
  have "hash (id_emp e) (bucket_count t) < length (table t)"
    using assms by (simp add: buckets_ok_def hash_less)
  then show ?thesis using assms(2)
    by (simp add: insert_internal_def Let_def stored_def counted_def length_concat_cons)
qed

lemma insert_internal_placed:
  assumes "buckets_ok t" "placed t"
  shows "placed (snd (insert_internal e t))"
proof -
  have i: "hash (id_emp e) (bucket_count t) < length (table t)"
    using assms by (simp add: buckets_ok_def hash_less)
  show ?thesis
  proof (cases "chain_has_id (id_emp e) (table t ! hash (id_emp e) (bucket_count t))")
    case True
    then show ?thesis using assms by (simp add: insert_internal_dup)
  next
    case False
    show ?thesis using assms(2) i
      by (auto simp: insert_internal_new [OF False] placed_iff nth_list_update)
  qed
qed

lemma placed_lookup:
  assumes "buckets_ok t" "placed t"
  shows "lookup k t = None \<longleftrightarrow> k \<notin> id_emp ` set (stored t)"
proof -
  have i: "hash k (bucket_count t) < length (table t)"
    using assms by (simp add: buckets_ok_def hash_less)
  show ?thesis
  proof
    assume n: "lookup k t = None"
    show "k \<notin> id_emp ` set (stored t)"
    proof
      assume "k \<in> id_emp ` set (stored t)"
      then obtain e c where e: "e \<in> set c" "c \<in> set (table t)" "id_emp e = k"
        by (auto simp: stored_def)
      then obtain j where j: "j < length (table t)" "table t ! j = c"
        by (auto simp: in_set_conv_nth)
      with assms(2) e have "hash k (bucket_count t) = j" by (auto simp: placed_iff)
      with j e n show False by (auto simp: lookup_def chain_find_None_iff)
    qed
  next
    assume "k \<notin> id_emp ` set (stored t)"
    moreover have "set (table t ! hash k (bucket_count t)) \<subseteq> set (stored t)"
      using nth_mem [OF i] by (auto simp: stored_def)
    ultimately show "lookup k t = None"
      by (auto simp: lookup_def chain_find_None_iff)
  qed
qed

lemma insert_internal_keys_distinct:
  assumes "buckets_ok t" "placed t" "keys_distinct t"
  shows "keys_distinct (snd (insert_internal e t))"
proof (cases "fst (insert_internal e t)")
  case False
  then have "snd (insert_internal e t) = t"
    by (auto simp: insert_internal_def Let_def split: if_splits)
  with assms show ?thesis by simp
next
  case True
  then have "id_emp e \<notin> id_emp ` set (stored t)"
    using placed_lookup [OF assms(1,2)] by (simp add: insert_internal_fst)
  moreover have "mset (map id_emp (stored (snd (insert_internal e t)))) =
                 add_mset (id_emp e) (mset (map id_emp (stored t)))"
    using insert_internal_stored [OF assms(1), of e] True
    by (metis image_mset_add_mset mset_map)
  ultimately show ?thesis using assms(3)
    unfolding keys_distinct_def
    by (metis distinct.simps(2) mset_eq_imp_distinct_iff mset.simps(2) set_map)
qed

lemma insert_internal_inv:
  "table_inv t \<Longrightarrow> table_inv (snd (insert_internal e t))"
  by (simp add: table_inv_def insert_internal_buckets_ok insert_internal_placed
      insert_internal_keys_distinct insert_internal_counted)

lemma insert_internal_lookup:
  assumes "buckets_ok t"
  shows "lookup k (snd (insert_internal e t)) =
           (if id_emp e = k then (case lookup k t of Some y \<Rightarrow> Some y | None \<Rightarrow> Some e)
            else lookup k t)"
proof -
  let ?i = "hash (id_emp e) (bucket_count t)"
  have i: "?i < length (table t)"
    using assms by (simp add: buckets_ok_def hash_less)
  show ?thesis
  proof (cases "chain_has_id (id_emp e) (table t ! ?i)")
    case True
    then have "lookup (id_emp e) t \<noteq> None"
      by (simp add: lookup_def chain_has_id_iff chain_find_None_iff)
    then show ?thesis using True
      by (auto simp: insert_internal_dup)
  next
    case False
    then have none: "lookup (id_emp e) t = None"
      by (simp add: lookup_def chain_has_id_iff chain_find_None_iff)
    show ?thesis
    proof (cases "id_emp e = k")
      case True
      then show ?thesis using none i
        by (auto simp: insert_internal_new [OF False] lookup_def)
    next
      case ne: False
      then show ?thesis using i
        by (cases "hash k (bucket_count t) = ?i")
           (auto simp: insert_internal_new [OF False] lookup_def nth_list_update)
    qed
  qed
qed

lemma insert_internal_ids_valid:
  assumes "buckets_ok t" "ids_valid t" "isValidID (id_emp e)"
  shows "ids_valid (snd (insert_internal e t))"
proof -
  have "set (stored (snd (insert_internal e t))) \<subseteq> insert e (set (stored t))"
    using insert_internal_stored [OF assms(1), of e]
    by (metis set_mset_add_mset_insert set_mset_mset subset_insertI subset_refl)
  with assms(2,3) show ?thesis by (auto simp: ids_valid_def)
qed

lemma table_inv_lookup:
  assumes "table_inv t" "e \<in> set (stored t)"
  shows "lookup (id_emp e) t = Some e"
proof -
  from assms(1) have ok: "buckets_ok t" and pl: "placed t" and kd: "keys_distinct t"
    by (simp_all add: table_inv_def)
  from assms(2) obtain c where c: "c \<in> set (table t)" "e \<in> set c" by (auto simp: stored_def)
  then obtain j where j: "j < length (table t)" "table t ! j = c"
    by (auto simp: in_set_conv_nth)
  with pl c have h: "hash (id_emp e) (bucket_count t) = j" by (auto simp: placed_iff)
  have "distinct (map id_emp c)"
    using kd c(1) by (auto simp: keys_distinct_def stored_def intro: distinct_concat_chain)
  then have "chain_find (id_emp e) c = Some e" using c(2) by (rule chain_find_distinct)
  with h j show ?thesis by (simp add: lookup_def)
qed

lemma placed_update_chain:
  assumes "placed t" "i < length (table t)"
    and "\<forall>e \<in> set c'. hash (id_emp e) (bucket_count t) = i"
  shows "placed (t\<lparr>table := (table t)[i := c']\<rparr>)"
  using assms by (auto simp: placed_iff nth_list_update)

section \<open>The mutex is no part of the data\<close>

lemma mutex_upd_simps [simp]:
  "stored (t\<lparr>table_mutex := b\<rparr>) = stored t"
  "buckets_ok (t\<lparr>table_mutex := b\<rparr>) = buckets_ok t"
  "placed (t\<lparr>table_mutex := b\<rparr>) = placed t"
  "keys_distinct (t\<lparr>table_mutex := b\<rparr>) = keys_distinct t"
  "counted (t\<lparr>table_mutex := b\<rparr>) = counted t"
  "table_inv (t\<lparr>table_mutex := b\<rparr>) = table_inv t"
  "lookup k (t\<lparr>table_mutex := b\<rparr>) = lookup k t"
  "load_factor (t\<lparr>table_mutex := b\<rparr>) = load_factor t"
  by (simp_all add: stored_def buckets_ok_def placed_iff keys_distinct_def counted_def
      table_inv_def lookup_def load_factor_def)

lemma mutex_upd_id: "\<not> table_mutex t \<Longrightarrow> t\<lparr>table_mutex := False\<rparr> = t"
  by simp

lemma insert_internal_mutex:
  "insert_internal e (t\<lparr>table_mutex := b\<rparr>) =
     (fst (insert_internal e t), (snd (insert_internal e t))\<lparr>table_mutex := b\<rparr>)"
  by (simp add: insert_internal_def Let_def)

lemma reinsert_chain_mutex:
  "reinsert_chain xs (t\<lparr>table_mutex := b\<rparr>) = (reinsert_chain xs t)\<lparr>table_mutex := b\<rparr>"
  by (induction xs arbitrary: t) (simp_all add: insert_internal_mutex)

lemma reinsert_all_mutex:
  "reinsert_all xss (t\<lparr>table_mutex := b\<rparr>) = (reinsert_all xss t)\<lparr>table_mutex := b\<rparr>"
  by (induction xss arbitrary: t) (simp_all add: reinsert_chain_mutex)

lemma rehash_mutex: "rehash (t\<lparr>table_mutex := b\<rparr>) = (rehash t)\<lparr>table_mutex := b\<rparr>"
proof -
  have e: "t\<lparr>table_mutex := b, bucket_count := n, table := xs, element_count := 0\<rparr> =
        (t\<lparr>bucket_count := n, table := xs, element_count := 0\<rparr>)\<lparr>table_mutex := b\<rparr>" for n xs
    by simp
  have "rehash (t\<lparr>table_mutex := b\<rparr>) =
        reinsert_all (table t)
          (t\<lparr>table_mutex := b, bucket_count := next_prime ((bucket_count t * 2) mod 2 ^ 64),
             table := replicate (next_prime ((bucket_count t * 2) mod 2 ^ 64)) [],
             element_count := 0\<rparr>)"
    by (simp add: rehash_def Let_def)
  also have "\<dots> = (rehash t)\<lparr>table_mutex := b\<rparr>"
    unfolding e reinsert_all_mutex by (simp add: rehash_def Let_def)
  finally show ?thesis .
qed

section \<open>Reinsertion and rehash\<close>

text \<open>
  A rehash reinserts the stored employees, in the order of \<open>stored\<close>, into an empty vector.
  Whatever the old table was, the new one satisfies the invariants, and \<^verbatim>\<open>find\<close> in it
  returns the first stored employee with the id. Where no id was stored twice nothing is
  lost.
\<close>

lemma reinsert_chain_append:
  "reinsert_chain (xs @ ys) t = reinsert_chain ys (reinsert_chain xs t)"
  by (induction xs arbitrary: t) simp_all

lemma reinsert_all_concat: "reinsert_all xss t = reinsert_chain (concat xss) t"
  by (induction xss arbitrary: t) (simp_all add: reinsert_chain_append)

lemma reinsert_chain_frame:
  "bucket_count (reinsert_chain xs t) = bucket_count t"
  "table_mutex (reinsert_chain xs t) = table_mutex t"
  by (induction xs arbitrary: t) (simp_all add: insert_internal_frame)

lemma reinsert_chain_inv: "table_inv t \<Longrightarrow> table_inv (reinsert_chain xs t)"
  by (induction xs arbitrary: t) (simp_all add: insert_internal_inv)

lemma reinsert_chain_lookup:
  "buckets_ok t \<Longrightarrow>
   lookup k (reinsert_chain xs t) =
     (case lookup k t of Some y \<Rightarrow> Some y | None \<Rightarrow> List.find (\<lambda>e. id_emp e = k) xs)"
proof (induction xs arbitrary: t)
  case Nil
  then show ?case by (simp split: option.splits)
next
  case (Cons x xs)
  from Cons.prems have "buckets_ok (snd (insert_internal x t))"
    by (rule insert_internal_buckets_ok)
  from Cons.IH [OF this] show ?case
    by (simp add: insert_internal_lookup [OF Cons.prems] split: option.splits)
qed

lemma reinsert_chain_stored:
  "table_inv t \<Longrightarrow> distinct (map id_emp xs) \<Longrightarrow>
   id_emp ` set xs \<inter> id_emp ` set (stored t) = {} \<Longrightarrow>
   mset (stored (reinsert_chain xs t)) = mset (stored t) + mset xs"
proof (induction xs arbitrary: t)
  case Nil
  then show ?case by simp
next
  case (Cons x xs)
  let ?t = "snd (insert_internal x t)"
  from Cons.prems(1) have ok: "buckets_ok t" "placed t" by (simp_all add: table_inv_def)
  from Cons.prems(3) have "id_emp x \<notin> id_emp ` set (stored t)" by auto
  then have "fst (insert_internal x t)"
    by (simp add: insert_internal_fst placed_lookup [OF ok])
  then have st: "mset (stored ?t) = add_mset x (mset (stored t))"
    by (simp add: insert_internal_stored [OF ok(1)])
  then have "set (stored ?t) = insert x (set (stored t))"
    by (metis set_mset_add_mset_insert set_mset_mset)
  with Cons.prems(2,3) have "id_emp ` set xs \<inter> id_emp ` set (stored ?t) = {}" by auto
  from Cons.IH [OF insert_internal_inv [OF Cons.prems(1)] _ this] Cons.prems(2) st
  show ?case by simp
qed

lemma empty_table_inv:
  "0 < n \<Longrightarrow> table_inv (t\<lparr>bucket_count := n, table := replicate n [], element_count := 0\<rparr>)"
  by (simp add: table_inv_def buckets_ok_def placed_iff keys_distinct_def counted_def stored_def)

lemma empty_table_lookup:
  "0 < n \<Longrightarrow> lookup k (t\<lparr>bucket_count := n, table := replicate n [], element_count := 0\<rparr>) = None"
  by (simp add: lookup_def hash_less)

lemma rehash_eq:
  "rehash t = reinsert_chain (stored t)
     (t\<lparr>bucket_count := next_prime ((bucket_count t * 2) mod 2 ^ 64),
        table := replicate (next_prime ((bucket_count t * 2) mod 2 ^ 64)) [],
        element_count := 0\<rparr>)"
  by (simp add: rehash_def Let_def reinsert_all_concat stored_def)

lemma rehash_inv: "table_inv (rehash t)"
  unfolding rehash_eq by (intro reinsert_chain_inv empty_table_inv next_prime_pos)

lemma rehash_frame:
  "bucket_count (rehash t) = next_prime ((bucket_count t * 2) mod 2 ^ 64)"
  "table_mutex (rehash t) = table_mutex t"
  unfolding rehash_eq by (simp_all add: reinsert_chain_frame)

lemma rehash_lookup: "lookup k (rehash t) = List.find (\<lambda>e. id_emp e = k) (stored t)"
proof -
  let ?t0 = "t\<lparr>bucket_count := next_prime ((bucket_count t * 2) mod 2 ^ 64),
        table := replicate (next_prime ((bucket_count t * 2) mod 2 ^ 64)) [],
        element_count := 0\<rparr>"
  have "buckets_ok ?t0" using empty_table_inv [OF next_prime_pos] by (simp add: table_inv_def)
  from reinsert_chain_lookup [OF this] show ?thesis
    unfolding rehash_eq by (simp add: empty_table_lookup [OF next_prime_pos])
qed

lemma rehash_stored:
  "keys_distinct t \<Longrightarrow> mset (stored (rehash t)) = mset (stored t)"
  unfolding rehash_eq
  by (subst reinsert_chain_stored)
     (simp_all add: empty_table_inv next_prime_pos keys_distinct_def, simp_all add: stored_def)

lemma rehash_element_count:
  "keys_distinct t \<Longrightarrow> element_count (rehash t) = length (stored t)"
  using rehash_inv [of t] rehash_stored [of t]
  by (metis counted_def table_inv_def size_mset)

section \<open>The member functions with the mutex free\<close>

lemma load_factor_gt:
  "0 < bucket_count t \<Longrightarrow>
   load_factor t > MAX_LOAD_FACTOR \<longleftrightarrow> 3 * bucket_count t < 4 * element_count t"
proof -
  assume "0 < bucket_count t"
  then have "0 < real (bucket_count t)" by simp
  then have "(3 / 4 < real (element_count t) / real (bucket_count t)) =
             (3 * real (bucket_count t) < 4 * real (element_count t))"
    by (simp add: field_simps)
  also have "\<dots> = (real (3 * bucket_count t) < real (4 * element_count t))" by simp
  also have "\<dots> = (3 * bucket_count t < 4 * element_count t)" by (rule of_nat_less_iff)
  finally show ?thesis by (simp add: load_factor_def MAX_LOAD_FACTOR_def)
qed

lemma load_factor_le:
  "0 < bucket_count t \<Longrightarrow>
   load_factor t \<le> MAX_LOAD_FACTOR \<longleftrightarrow> 4 * element_count t \<le> 3 * bucket_count t"
  using load_factor_gt [of t] by auto

lemma new_table_inv: "table_inv (EmployeeHashTable_new n)"
  using next_prime_pos [of n]
  by (simp add: EmployeeHashTable_new_def table_inv_def buckets_ok_def placed_iff
      keys_distinct_def counted_def stored_def)

lemma new_table_simps:
  "stored (EmployeeHashTable_new n) = []"
  "bucket_count (EmployeeHashTable_new n) = next_prime n"
  "element_count (EmployeeHashTable_new n) = 0"
  "table_mutex (EmployeeHashTable_new n) = False"
  by (simp_all add: EmployeeHashTable_new_def stored_def)

lemma find_ht_unlocked: "\<not> table_mutex t \<Longrightarrow> find_ht k t = Returned (lookup k t)"
  by (simp add: find_ht_def lock_guard_const_def lookup_def)

lemma find_ht_ReturnedD: "find_ht k t = Returned r \<Longrightarrow> \<not> table_mutex t \<and> r = lookup k t"
  by (auto simp: find_ht_def lock_guard_const_def lookup_def split: if_splits)

lemma find_ht_new: "find_ht k (EmployeeHashTable_new n) = Returned None"
proof -
  have "lookup k (EmployeeHashTable_new n) = None"
    using new_table_inv [of n]
    by (subst placed_lookup) (simp_all add: table_inv_def new_table_simps)
  then show ?thesis by (simp add: find_ht_unlocked new_table_simps)
qed

lemma insert_ht_unlocked:
  assumes "\<not> table_mutex t"
  shows "insert_ht emp t = Returned
     (case validate emp of
        Inl ex \<Rightarrow> (Inl ex, t)
      | Inr _ \<Rightarrow>
         (case insert_internal emp t of
            (inserted, t1) \<Rightarrow>
              if inserted
              then (if load_factor t1 > MAX_LOAD_FACTOR then (Inr True, rehash t1)
                    else (Inr True, t1))
              else (Inr False, t1)))"
proof -
  have a: "table_mutex (snd (insert_internal emp t)) = False"
    using assms by (simp add: insert_internal_frame)
  have b: "table_mutex (rehash (snd (insert_internal emp t))) = False"
    using a by (simp add: rehash_frame)
  show ?thesis using assms a b
    by (cases "insert_internal emp t")
       (simp add: insert_ht_def lock_guard_def insert_internal_mutex rehash_mutex
          split: sum.splits)
qed

lemma insert_ht_cases:
  assumes "\<not> table_mutex t"
  shows "insert_ht e t = Returned
     (case validate e of
        Inl ex \<Rightarrow> (Inl ex, t)
      | Inr _ \<Rightarrow>
          if fst (insert_internal e t)
          then (if load_factor (snd (insert_internal e t)) > MAX_LOAD_FACTOR
                then (Inr True, rehash (snd (insert_internal e t)))
                else (Inr True, snd (insert_internal e t)))
          else (Inr False, snd (insert_internal e t)))"
  by (cases "validate e"; cases "insert_internal e t")
     (simp_all add: insert_ht_unlocked [OF assms])


lemma insert_ht_then_find:
  assumes ok: "buckets_ok t" and pl: "placed t" and v: "validate e = Inr u"
    and ins: "insert_ht e t = Returned (Inr True, t')"
  shows "find_ht (id_emp e) t' = Returned (Some e)"
proof -
  let ?k = "id_emp e" and ?S = "snd (insert_internal e t)"
  let ?i = "hash ?k (bucket_count t)"
  from ins have nm: "\<not> table_mutex t"
    by (auto simp: insert_ht_def lock_guard_def split: if_splits)
  from ins nm v have fst: "fst (insert_internal e t)"
    by (auto simp: insert_ht_cases split: if_splits)
  then have none: "lookup ?k t = None" by (simp add: insert_internal_fst)
  have Smx: "\<not> table_mutex ?S" using nm by (simp add: insert_internal_frame)
  have lS: "lookup ?k ?S = Some e"
    by (simp add: insert_internal_lookup [OF ok] none)
  show ?thesis
  proof (cases "load_factor ?S > MAX_LOAD_FACTOR")
    case False
    with ins nm v fst have "t' = ?S"
      by (simp add: insert_ht_cases)
    with Smx lS show ?thesis by (simp add: find_ht_unlocked)
  next
    case True
    with ins nm v fst have t': "t' = rehash ?S"
      by (simp add: insert_ht_cases)
    have i: "?i < length (table t)" using ok by (simp add: buckets_ok_def hash_less)
    have before: "\<forall>x \<in> set (concat (take ?i (table t))). id_emp x \<noteq> ?k"
    proof
      fix x assume "x \<in> set (concat (take ?i (table t)))"
      then obtain c where c: "c \<in> set (take ?i (table t))" "x \<in> set c" by auto
      then obtain j where j: "j < ?i" "take ?i (table t) ! j = c"
        by (auto simp: in_set_conv_nth)
      with i have "j < length (table t)" "table t ! j = c" by auto
      with pl c have "hash (id_emp x) (bucket_count t) = j" by (auto simp: placed_iff)
      with j show "id_emp x \<noteq> ?k" by auto
    qed
    have "List.find (\<lambda>x. id_emp x = ?k) (stored ?S) = Some e"
      unfolding stored_after_insert_internal [OF ok fst]
      by (rule find_append_first) (use before in auto)
    then have "lookup ?k (rehash ?S) = Some e" by (simp add: rehash_lookup)
    moreover have "\<not> table_mutex (rehash ?S)" using Smx by (simp add: rehash_frame)
    ultimately show ?thesis by (simp add: t' find_ht_unlocked)
  qed
qed

lemma insert_ht_new_key:
  assumes inv: "table_inv t" and nm: "\<not> table_mutex t" and v: "validate e = Inr u"
    and new: "id_emp e \<notin> id_emp ` set (stored t)"
  shows "\<exists>t'. insert_ht e t = Returned (Inr True, t') \<and> table_inv t' \<and> \<not> table_mutex t' \<and>
           mset (stored t') = add_mset e (mset (stored t)) \<and>
           element_count t' = element_count t + 1 \<and>
           bucket_count t' =
             (if 3 * bucket_count t < 4 * (element_count t + 1)
              then next_prime ((bucket_count t * 2) mod 2 ^ 64) else bucket_count t)"
proof -
  let ?S = "snd (insert_internal e t)"
  from inv have ok: "buckets_ok t" and pl: "placed t" by (simp_all add: table_inv_def)
  from new have fst: "fst (insert_internal e t)"
    by (simp add: insert_internal_fst placed_lookup [OF ok pl])
  have Sinv: "table_inv ?S" using inv by (rule insert_internal_inv)
  have Sst: "mset (stored ?S) = add_mset e (mset (stored t))"
    using fst by (simp add: insert_internal_stored [OF ok])
  have Sec: "element_count ?S = element_count t + 1"
    using fst by (rule insert_internal_element_count)
  have Sbc: "bucket_count ?S = bucket_count t" by (rule insert_internal_frame)
  have Smx: "\<not> table_mutex ?S" using nm by (simp add: insert_internal_frame)
  have pos: "0 < bucket_count ?S" using ok Sbc by (simp add: buckets_ok_def)
  show ?thesis
  proof (cases "load_factor ?S > MAX_LOAD_FACTOR")
    case False
    then have "\<not> 3 * bucket_count t < 4 * (element_count t + 1)"
      using load_factor_gt [OF pos] Sec Sbc by simp
    moreover from False have "insert_ht e t = Returned (Inr True, ?S)"
      using nm v fst by (simp add: insert_ht_cases)
    ultimately show ?thesis using Sinv Sst Sec Sbc Smx by auto
  next
    case True
    then have tr: "3 * bucket_count t < 4 * (element_count t + 1)"
      using load_factor_gt [OF pos] Sec Sbc by simp
    have kd: "keys_distinct ?S" using Sinv by (simp add: table_inv_def)
    have "element_count (rehash ?S) = element_count ?S"
      using rehash_element_count [OF kd] Sinv by (simp add: table_inv_def counted_def)
    moreover from True have "insert_ht e t = Returned (Inr True, rehash ?S)"
      using nm v fst by (simp add: insert_ht_cases)
    ultimately show ?thesis using tr rehash_inv [of ?S] rehash_stored [OF kd] Sst Sec Sbc Smx
      by (auto simp: rehash_frame)
  qed
qed

lemma insert_ht_table_inv:
  assumes "table_inv t" "insert_ht e t = Returned (r, t')"
  shows "table_inv t'"
proof -
  from assms(2) have nm: "\<not> table_mutex t"
    by (auto simp: insert_ht_def lock_guard_def split: if_splits)
  from assms(2) nm have "t' = t \<or> t' = snd (insert_internal e t) \<or>
      t' = rehash (snd (insert_internal e t))"
    by (auto simp: insert_ht_cases split: sum.splits if_splits)
  with assms(1) show ?thesis by (auto simp: insert_internal_inv rehash_inv)
qed

lemma insert_all_no_rehash:
  "table_inv t \<Longrightarrow> \<not> table_mutex t \<Longrightarrow> \<forall>e \<in> set es. validate e = Inr () \<Longrightarrow>
   distinct (map id_emp es) \<Longrightarrow> id_emp ` set es \<inter> id_emp ` set (stored t) = {} \<Longrightarrow>
   4 * (element_count t + length es) \<le> 3 * bucket_count t \<Longrightarrow>
   \<exists>t'. insert_all es t = Returned (replicate (length es) (Inr True), t') \<and>
        table_inv t' \<and> \<not> table_mutex t' \<and>
        mset (stored t') = mset (stored t) + mset es \<and>
        element_count t' = element_count t + length es \<and>
        bucket_count t' = bucket_count t"
proof (induction es arbitrary: t)
  case Nil
  then show ?case by simp
next
  case (Cons e es)
  from Cons.prems have v: "validate e = Inr ()" and new: "id_emp e \<notin> id_emp ` set (stored t)"
    by auto
  from insert_ht_new_key [OF Cons.prems(1,2) v new] Cons.prems(6)
  obtain t1 where t1: "insert_ht e t = Returned (Inr True, t1)" "table_inv t1"
      "\<not> table_mutex t1" "mset (stored t1) = add_mset e (mset (stored t))"
      "element_count t1 = element_count t + 1" "bucket_count t1 = bucket_count t"
    by (auto split: if_splits)
  from t1(4) have "set (stored t1) = insert e (set (stored t))"
    by (metis set_mset_add_mset_insert set_mset_mset)
  with Cons.prems(4,5) have dis: "id_emp ` set es \<inter> id_emp ` set (stored t1) = {}" by auto
  have "4 * (element_count t1 + length es) \<le> 3 * bucket_count t1"
    using Cons.prems(6) t1(5,6) by simp
  from Cons.IH [OF t1(2,3) _ _ dis this] Cons.prems(3,4)
  obtain t' where t': "insert_all es t1 = Returned (replicate (length es) (Inr True), t')"
      "table_inv t'" "\<not> table_mutex t'" "mset (stored t') = mset (stored t1) + mset es"
      "element_count t' = element_count t1 + length es" "bucket_count t' = bucket_count t1"
    by auto
  show ?case using t1 t' by (intro exI [of _ t']) simp
qed

lemma insert_all_append:
  "insert_all es t = Returned (rs, t1) \<Longrightarrow> insert_all fs t1 = Returned (qs, t2) \<Longrightarrow>
   insert_all (es @ fs) t = Returned (rs @ qs, t2)"
  by (induction es arbitrary: t rs) (auto split: call.splits)

lemma update_invalid:
  assumes "validate u = Inl ex" "find_ht k t = Returned r"
  shows "update k u t = Returned ((case r of Some old \<Rightarrow> Inl ex | None \<Rightarrow> Inr False), t)"
proof -
  from assms(2) have nm: "\<not> table_mutex t" and r: "r = lookup k t"
    by (auto simp: find_ht_def lock_guard_const_def lookup_def split: if_splits)
  show ?thesis
  proof (cases r)
    case None
    with r have "chain_update k u (table t ! hash k (bucket_count t)) = None"
      by (simp add: chain_update_None_iff lookup_def)
    with nm None show ?thesis by (simp add: update_def lock_guard_def Let_def)
  next
    case (Some old)
    with r have "chain_find k (table t ! hash k (bucket_count t)) = Some old"
      by (simp add: lookup_def)
    with assms(1) have "chain_update k u (table t ! hash k (bucket_count t)) = Some (Inl ex)"
      by (rule chain_update_invalid)
    with nm Some show ?thesis by (simp add: update_def lock_guard_def Let_def)
  qed
qed

lemma update_other_key:
  assumes ok: "buckets_ok t"
    and f: "find_ht k t = Returned (Some old)"
    and v: "validate u = Inr x"
    and ne: "id_emp u \<noteq> k"
    and once: "length (filter (\<lambda>e. id_emp e = k) (table t ! hash k (bucket_count t))) \<le> 1"
  shows "\<exists>t'. update k u t = Returned (Inr True, t') \<and>
           size_ht t' = size_ht t \<and>
           bucket_count t' = bucket_count t \<and>
           u \<in> set (table t' ! hash k (bucket_count t')) \<and>
           find_ht k t' = Returned None"
proof -
  let ?i = "hash k (bucket_count t)"
  from f have nm: "\<not> table_mutex t" and l: "chain_find k (table t ! ?i) = Some old"
    by (auto dest: find_ht_ReturnedD simp: lookup_def)
  have i: "?i < length (table t)" using ok by (simp add: buckets_ok_def hash_less)
  from chain_update_valid [OF v l] once ne obtain c' where
    c': "chain_update k u (table t ! ?i) = Some (Inr c')" "u \<in> set c'" "chain_find k c' = None"
    by blast
  let ?t' = "t\<lparr>table := (table t)[?i := c']\<rparr>"
  have "update k u t = Returned (Inr True, ?t')"
    using nm c'(1) by (auto simp: update_def lock_guard_def Let_def mutex_upd_id)
  moreover have "size_ht ?t' = size_ht t" by (simp add: size_ht_def lock_guard_const_def)
  moreover have "table ?t' ! hash k (bucket_count ?t') = c'" using i by simp
  ultimately show ?thesis using c'(2,3) nm
    by (intro exI [of _ ?t']) (simp add: find_ht_def lock_guard_const_def)
qed

lemma search_chain_eq: "search_chain c xs acc = acc @ filter (matches c) xs"
  by (induction xs arbitrary: acc) simp_all

lemma search_table_eq: "search_table c xss acc = acc @ filter (matches c) (concat xss)"
  by (induction xss arbitrary: acc) (simp_all add: search_chain_eq)

lemma matches_empty: "matches empty_criteria e"
  by (simp add: matches_def empty_criteria_def)

lemma search_empty: "\<not> table_mutex t \<Longrightarrow> search empty_criteria t = Returned (stored t)"
  by (simp add: search_def lock_guard_const_def search_table_eq matches_empty stored_def)

section \<open>Invariants of the tables that calls build\<close>

text \<open>
  Three sets of tables and what the calls keep: tables built by \<^verbatim>\<open>insert\<close> alone keep all
  invariants, valid ids and the load factor; tables built by any calls keep the node count
  and a prime bucket count; tables built by calls that never change an id keep all
  invariants of the data model.
\<close>

lemma rehash_grows:
  assumes bp: "is_prime 18026677"
    and inv: "table_inv t" and val: "ids_valid t"
  and trig: "3 * bucket_count t < 4 * element_count t"
  shows "2 * bucket_count t \<le> bucket_count (rehash t)"
proof -
  from inv have kd: "distinct (map id_emp (stored t))" and cnt: "element_count t = length (stored t)"
    by (simp_all add: table_inv_def keys_distinct_def counted_def)
  have "length (map id_emp (stored t)) \<le> 6760000"
    by (rule distinct_valid_ids_bound [OF kd]) (use val in \<open>auto simp: ids_valid_def\<close>)
  with cnt trig have b: "bucket_count t * 2 \<le> 18026677" by simp
  then have "(bucket_count t * 2) mod 2 ^ 64 = bucket_count t * 2" by simp
  moreover have "bucket_count t * 2 \<le> next_prime (bucket_count t * 2)"
    using next_prime_bounds [OF bp b] by simp
  ultimately show ?thesis by (simp add: rehash_frame)
qed

lemma insert_ht_insert_inv:
  assumes bp: "is_prime 18026677"
    and inv: "insert_inv t" and ins: "insert_ht e t = Returned (r, t')"
  shows "insert_inv t'"
proof -
  from inv have ti: "table_inv t" and nm: "\<not> table_mutex t" and val: "ids_valid t"
    and bc2: "2 \<le> bucket_count t" and lf: "4 * element_count t \<le> 3 * bucket_count t"
    by (simp_all add: insert_inv_def)
  from ti have ok: "buckets_ok t" by (simp add: table_inv_def)
  let ?S = "snd (insert_internal e t)"
  show ?thesis
  proof (cases "validate e")
    case (Inl ex)
    with ins nm have "t' = t" by (simp add: insert_ht_unlocked)
    with inv show ?thesis by simp
  next
    case (Inr u)
    then have vid: "isValidID (id_emp e)" by (rule validate_id)
    show ?thesis
    proof (cases "fst (insert_internal e t)")
      case False
      with ins nm Inr have "t' = ?S"
        by (simp add: insert_ht_unlocked split: prod.splits)
      with False inv show ?thesis by (simp add: insert_internal_not_inserted)
    next
      case True
      have Sinv: "table_inv ?S" using ti by (rule insert_internal_inv)
      have Sval: "ids_valid ?S" using ok val vid by (rule insert_internal_ids_valid)
      have Sec: "element_count ?S = element_count t + 1"
        using True by (rule insert_internal_element_count)
      have Sbc: "bucket_count ?S = bucket_count t" by (rule insert_internal_frame)
      have Smx: "\<not> table_mutex ?S" using nm by (simp add: insert_internal_frame)
      show ?thesis
      proof (cases "load_factor ?S > MAX_LOAD_FACTOR")
        case False
        with ins nm Inr True have t': "t' = ?S"
          by (simp add: insert_ht_unlocked split: prod.splits)
        from False have "4 * element_count ?S \<le> 3 * bucket_count ?S"
          using load_factor_gt [of ?S] bc2 Sbc by simp
        with Sinv Sval Smx Sbc bc2 show ?thesis by (simp add: t' insert_inv_def)
      next
        case trig: True
        with ins nm Inr True have t': "t' = rehash ?S"
          by (simp add: insert_ht_unlocked split: prod.splits)
        from trig have tr: "3 * bucket_count ?S < 4 * element_count ?S"
          using load_factor_gt [of ?S] bc2 Sbc by simp
        have grow: "2 * bucket_count ?S \<le> bucket_count (rehash ?S)"
          using bp Sinv Sval tr by (rule rehash_grows)
        have kd: "keys_distinct ?S" using Sinv by (simp add: table_inv_def)
        have "set (stored (rehash ?S)) = set (stored ?S)"
          using rehash_stored [OF kd] by (metis set_mset_mset)
        with Sval have "ids_valid (rehash ?S)" by (simp add: ids_valid_def)
        moreover have "element_count (rehash ?S) = element_count ?S"
          using rehash_element_count [OF kd] Sinv by (simp add: table_inv_def counted_def)
        moreover have "\<not> table_mutex (rehash ?S)" using Smx by (simp add: rehash_frame)
        ultimately show ?thesis using grow rehash_inv [of ?S] Sec Sbc lf bc2
          by (simp add: t' insert_inv_def)
      qed
    qed
  qed
qed

lemma inserts_from_inv:
  assumes bp: "is_prime 18026677"
  shows "inserts_from n t \<Longrightarrow> insert_inv t"
proof (induction rule: inserts_from.induct)
  case fresh
  show ?case using next_prime_ge2 [of n]
    by (simp add: insert_inv_def new_table_inv new_table_simps ids_valid_def)
next
  case (step t e r t')
  from bp step.IH step.hyps(2) show ?case by (rule insert_ht_insert_inv)
qed

lemma remove_reach_inv:
  assumes "reach_inv t" "remove k t = Returned (b, t')"
  shows "reach_inv t'"
proof -
  from assms(1) have ok: "buckets_ok t" and cnt: "counted t" and nm: "\<not> table_mutex t"
    and pr: "prime_nat (bucket_count t)" by (simp_all add: reach_inv_def)
  let ?i = "hash k (bucket_count t)"
  have i: "?i < length (table t)" using ok by (simp add: buckets_ok_def hash_less)
  show ?thesis
  proof (cases "chain_remove k (table t ! ?i)")
    case None
    with assms(2) nm have "t' = t"
      by (auto simp: remove_def lock_guard_def Let_def mutex_upd_id)
    with assms(1) show ?thesis by simp
  next
    case (Some c')
    with assms(2) nm have t': "t' = t\<lparr>table := (table t)[?i := c'],
        element_count := (if element_count t = 0 then 2 ^ 64 - 1 else element_count t - 1)\<rparr>"
      by (auto simp: remove_def lock_guard_def Let_def mutex_upd_id)
    from Some have len: "length (table t ! ?i) = Suc (length c')" by (rule chain_remove_length)
    from length_concat_update [OF i, of c'] len
    have "length (concat (table t)) = Suc (length (concat ((table t)[?i := c'])))" by simp
    with cnt have "counted t'" by (simp add: t' counted_def stored_def)
    with ok nm pr show ?thesis by (simp add: t' reach_inv_def buckets_ok_def)
  qed
qed

lemma update_reach_inv:
  assumes "reach_inv t" "update k u t = Returned (r, t')"
  shows "reach_inv t'"
proof -
  from assms(1) have ok: "buckets_ok t" and cnt: "counted t" and nm: "\<not> table_mutex t"
    and pr: "prime_nat (bucket_count t)" by (simp_all add: reach_inv_def)
  let ?i = "hash k (bucket_count t)"
  have i: "?i < length (table t)" using ok by (simp add: buckets_ok_def hash_less)
  show ?thesis
  proof (cases "chain_update k u (table t ! ?i)")
    case None
    with assms(2) nm have "t' = t"
      by (auto simp: update_def lock_guard_def Let_def mutex_upd_id)
    with assms(1) show ?thesis by simp
  next
    case (Some res)
    show ?thesis
    proof (cases res)
      case (Inl ex)
      with Some assms(2) nm have "t' = t"
        by (auto simp: update_def lock_guard_def Let_def mutex_upd_id)
      with assms(1) show ?thesis by simp
    next
      case (Inr c')
      with Some assms(2) nm have t': "t' = t\<lparr>table := (table t)[?i := c']\<rparr>"
        by (auto simp: update_def lock_guard_def Let_def mutex_upd_id)
      from Some Inr have "length c' = length (table t ! ?i)" by (simp add: chain_update_length)
      with length_concat_update [OF i, of c']
      have "length (concat ((table t)[?i := c'])) = length (concat (table t))" by simp
      with cnt have "counted t'" by (simp add: t' counted_def stored_def)
      with ok nm pr show ?thesis by (simp add: t' reach_inv_def buckets_ok_def)
    qed
  qed
qed

lemma insert_ht_reach_inv:
  assumes "reach_inv t" "insert_ht e t = Returned (r, t')"
  shows "reach_inv t'"
proof -
  from assms(1) have ok: "buckets_ok t" and cnt: "counted t" and nm: "\<not> table_mutex t"
    and pr: "prime_nat (bucket_count t)" by (simp_all add: reach_inv_def)
  let ?S = "snd (insert_internal e t)"
  have S: "reach_inv ?S"
    using ok cnt nm pr
    by (simp add: reach_inv_def insert_internal_buckets_ok insert_internal_counted
        insert_internal_frame)
  have R: "reach_inv (rehash ?S)"
    using rehash_inv [of ?S] nm is_prime_sound [OF is_prime_next_prime]
    by (simp add: reach_inv_def table_inv_def rehash_frame insert_internal_frame)
  from assms(2) nm have "t' = t \<or> t' = ?S \<or> t' = rehash ?S"
    by (auto simp: insert_ht_cases split: sum.splits if_splits)
  with assms(1) S R show ?thesis by auto
qed

lemma new_reach_inv: "reach_inv (EmployeeHashTable_new n)"
  using new_table_inv [of n] is_prime_sound [OF is_prime_next_prime, of n]
  by (simp add: reach_inv_def table_inv_def new_table_simps)

lemma reachable_reach_inv: "reachable t \<Longrightarrow> reach_inv t"
  by (induction rule: reachable.induct)
     (auto intro: new_reach_inv insert_ht_reach_inv remove_reach_inv update_reach_inv)

lemma remove_table_inv:
  assumes inv: "table_inv t" and rm: "remove k t = Returned (b, t')"
  shows "table_inv t'"
proof -
  from inv have ok: "buckets_ok t" and pl: "placed t" and kd: "keys_distinct t"
    and cnt: "counted t" by (simp_all add: table_inv_def)
  from rm have nm: "\<not> table_mutex t" by (auto simp: remove_def lock_guard_def split: if_splits)
  let ?i = "hash k (bucket_count t)"
  have i: "?i < length (table t)" using ok by (simp add: buckets_ok_def hash_less)
  show ?thesis
  proof (cases "chain_remove k (table t ! ?i)")
    case None
    with rm nm have "t' = t" by (auto simp: remove_def lock_guard_def Let_def mutex_upd_id)
    with inv show ?thesis by simp
  next
    case (Some c')
    with rm nm have t': "t' = t\<lparr>table := (table t)[?i := c'],
        element_count := (if element_count t = 0 then 2 ^ 64 - 1 else element_count t - 1)\<rparr>"
      by (auto simp: remove_def lock_guard_def Let_def mutex_upd_id)
    from chain_remove_mset [OF Some] obtain x where x: "mset (table t ! ?i) = add_mset x (mset c')"
      by blast
    then have sub: "set c' \<subseteq> set (table t ! ?i)"
      by (metis set_mset_add_mset_insert set_mset_mset subset_insertI)
    have st: "mset (stored t) = add_mset x (mset (concat ((table t)[?i := c'])))"
      unfolding stored_def
      by (subst concat_split [OF i], subst concat_update [OF i]) (simp add: x)
    have len: "length (stored t) = Suc (length (concat ((table t)[?i := c'])))"
      using st by (metis size_add_mset size_mset)
    have "mset (map id_emp (stored t)) =
          mset (id_emp x # map id_emp (concat ((table t)[?i := c'])))"
      using st by (metis image_mset_add_mset mset.simps(2) mset_map)
    with kd have "distinct (id_emp x # map id_emp (concat ((table t)[?i := c'])))"
      unfolding keys_distinct_def by (metis mset_eq_imp_distinct_iff)
    then have kd': "distinct (map id_emp (concat ((table t)[?i := c'])))" by simp
    have pl': "placed (t\<lparr>table := (table t)[?i := c']\<rparr>)"
      using pl i sub by (intro placed_update_chain) (auto simp: placed_iff)
    then have "placed t'" by (simp add: t' placed_iff)
    moreover have "counted t'" using cnt len by (simp add: t' counted_def stored_def)
    moreover have "keys_distinct t'" using kd' by (simp add: t' keys_distinct_def stored_def)
    moreover have "buckets_ok t'" using ok by (simp add: t' buckets_ok_def)
    ultimately show ?thesis by (simp add: table_inv_def)
  qed
qed

lemma update_same_key_table_inv:
  assumes inv: "table_inv t" and same: "id_emp u = k" and up: "update k u t = Returned (r, t')"
  shows "table_inv t'"
proof -
  from inv have ok: "buckets_ok t" and pl: "placed t" and kd: "keys_distinct t"
    and cnt: "counted t" by (simp_all add: table_inv_def)
  from up have nm: "\<not> table_mutex t" by (auto simp: update_def lock_guard_def split: if_splits)
  let ?i = "hash k (bucket_count t)"
  have i: "?i < length (table t)" using ok by (simp add: buckets_ok_def hash_less)
  have unchanged: "t' = t \<Longrightarrow> ?thesis" using inv by simp
  show ?thesis
  proof (cases "chain_update k u (table t ! ?i)")
    case None
    with up nm have "t' = t" by (auto simp: update_def lock_guard_def Let_def mutex_upd_id)
    then show ?thesis by (rule unchanged)
  next
    case (Some res)
    show ?thesis
    proof (cases res)
      case (Inl ex)
      with Some up nm have "t' = t"
        by (auto simp: update_def lock_guard_def Let_def mutex_upd_id)
      then show ?thesis by (rule unchanged)
    next
      case (Inr c')
      with Some up nm have t': "t' = t\<lparr>table := (table t)[?i := c']\<rparr>"
        by (auto simp: update_def lock_guard_def Let_def mutex_upd_id)
      from Some Inr have cu: "chain_update k u (table t ! ?i) = Some (Inr c')" by simp
      from chain_update_same_key [OF cu same]
      have ids: "map id_emp c' = map id_emp (table t ! ?i)"
        and sub: "set c' \<subseteq> insert u (set (table t ! ?i))" by simp_all
      have a: "concat ((table t)[?i := c']) =
          concat (take ?i (table t)) @ c' @ concat (drop (Suc ?i) (table t))"
        by (rule concat_update [OF i])
      have b: "concat (table t) =
          concat (take ?i (table t)) @ table t ! ?i @ concat (drop (Suc ?i) (table t))"
        by (rule concat_split [OF i])
      have eq: "map id_emp (concat ((table t)[?i := c'])) = map id_emp (stored t)"
        unfolding stored_def by (subst a, subst b) (simp add: ids)
      then have "length (concat ((table t)[?i := c'])) = length (stored t)"
        by (metis length_map)
      with eq have "keys_distinct t'" "counted t'"
        using kd cnt by (simp_all add: t' keys_distinct_def counted_def stored_def)
      moreover have "placed t'" unfolding t'
        using pl i sub same by (intro placed_update_chain) (auto simp: placed_iff)
      moreover have "buckets_ok t'" using ok by (simp add: t' buckets_ok_def)
      ultimately show ?thesis by (simp add: table_inv_def)
    qed
  qed
qed

lemma well_built_inv: "well_built t \<Longrightarrow> table_inv t"
  by (induction rule: well_built.induct)
     (auto intro: new_table_inv insert_ht_table_inv remove_table_inv update_same_key_table_inv)

lemma well_built_reachable: "well_built t \<Longrightarrow> reachable t"
  by (induction rule: well_built.induct) (auto intro: reachable.intros)

text \<open>
  \<^verbatim>\<open>rehash\<close> keeps the records of a table that stores no id twice and counts its nodes:
  ids and contents, \<open>element_count\<close> and the mutex are as before, and the new placement
  satisfies the invariants of the data model.
\<close>

lemma rehash_keeps_distinct_records:
  "keys_distinct t \<Longrightarrow> counted t \<Longrightarrow>
   mset (stored (rehash t)) = mset (stored t) \<and>
   element_count (rehash t) = element_count t \<and>
   table_mutex (rehash t) = table_mutex t \<and>
   bucket_count (rehash t) = next_prime ((bucket_count t * 2) mod 2 ^ 64) \<and>
   table_inv (rehash t)"
  by (simp add: rehash_stored rehash_element_count rehash_frame rehash_inv counted_def)

section \<open>Interleaved calls\<close>

text \<open>
  Every statement keeps the mutual exclusion: the \<^verbatim>\<open>lock_guard\<close> is taken on a free mutex
  only, no statement between it and the return releases the mutex (\<^verbatim>\<open>insert_internal\<close> and
  \<^verbatim>\<open>rehash\<close> included), and the return releases it.
\<close>

lemma inside_iff: "inside c \<longleftrightarrow> (\<exists>op pc. c = In_call op pc \<and> pc \<noteq> Entry)"
  by (cases c rule: inside.cases) simp_all

lemma remove_scan_mutex: "table_mutex (snd (remove_scan k t)) = table_mutex t"
  by (simp add: remove_scan_def Let_def split: option.splits)

lemma update_scan_mutex: "table_mutex (snd (update_scan k u t)) = table_mutex t"
  by (simp add: update_scan_def Let_def split: option.splits sum.splits)

lemma statement_Entry:
  assumes "statement op Entry t = Some (c, t')"
  shows "(op = Load_factor \<and> t' = t \<and> \<not> in_call c) \<or>
         (op \<noteq> Load_factor \<and> \<not> table_mutex t \<and> table_mutex t' \<and> c = In_call op Locked)"
  using assms by (cases op) (auto simp: statement_def split: if_splits)

lemma statement_inside:
  assumes "statement op pc t = Some (c, t')" "pc \<noteq> Entry"
  shows "(inside c \<and> table_mutex t' = table_mutex t) \<or> (\<not> in_call c \<and> \<not> table_mutex t')"
proof (cases pc)
  case Entry
  with assms show ?thesis by simp
next
  case Locked
  show ?thesis
  proof (cases op)
    case (Remove k)
    with Locked assms show ?thesis
      using remove_scan_mutex [of k t]
      by (auto simp: statement_def split: prod.splits)
  next
    case (Update k u)
    with Locked assms show ?thesis
      using update_scan_mutex [of k u t]
      by (auto simp: statement_def split: prod.splits sum.splits)
  next
    case (Insert e)
    with Locked assms show ?thesis by (auto simp: statement_def split: sum.splits)
  next
    case (Find k)
    with Locked assms show ?thesis by (auto simp: statement_def)
  next
    case (Search criteria)
    with Locked assms show ?thesis by (auto simp: statement_def)
  next
    case Get_all
    with Locked assms show ?thesis by (auto simp: statement_def)
  next
    case Load_factor
    with Locked assms show ?thesis by (auto simp: statement_def)
  next
    case Size
    with Locked assms show ?thesis by (auto simp: statement_def)
  next
    case Get_statistics
    with Locked assms show ?thesis by (auto simp: statement_def)
  qed
next
  case Validated
  with assms show ?thesis
    using insert_internal_frame(2)
    by (cases op) (auto simp: statement_def split: prod.splits if_splits, (metis snd_conv)+)
next
  case Inserted
  with assms show ?thesis
    by (cases op) (auto simp: statement_def split: if_splits)
next
  case Rehashing
  with assms show ?thesis
    by (cases op) (auto simp: statement_def rehash_frame)
next
  case (Leaving r)
  with assms show ?thesis by (auto simp: statement_def)
qed

lemma perform_length: "perform ev (cs, t) = Some (cs', t') \<Longrightarrow> length cs' = length cs"
  by (cases ev) (auto split: if_splits caller.splits option.splits)

lemma perform_exclusive:
  assumes ex: "exclusive (cs, t)" and p: "perform ev (cs, t) = Some (cs', t')"
  shows "exclusive (cs', t')"
proof (cases ev)
  case (Call i op)
  with p have i: "i < length cs" "\<not> in_call (cs ! i)" and eq: "cs' = cs[i := In_call op Entry]" "t' = t"
    by (auto split: if_splits)
  from i(2) have ni: "\<not> inside (cs ! i)" by (auto simp: inside_iff)
  have len: "length cs' = length cs" by (simp add: eq)
  have "inside (cs' ! j) = inside (cs ! j)" if "j < length cs" for j
    using that ni i(1) by (cases "j = i") (simp_all add: eq)
  with ex len show ?thesis by (auto simp: exclusive_def eq(2))
next
  case (Step i)
  with p obtain op pc c where i: "i < length cs" and ci: "cs ! i = In_call op pc"
      and st: "statement op pc t = Some (c, t')" and eq: "cs' = cs[i := c]"
    by (auto split: if_splits caller.splits option.splits)
  have other: "cs' ! j = cs ! j" if "j \<noteq> i" for j using that by (simp add: eq)
  have self: "cs' ! i = c" using i by (simp add: eq)
  have len: "length cs' = length cs" by (simp add: eq)
  from ex have m: "table_mutex t \<longleftrightarrow> (\<exists>j < length cs. inside (cs ! j))"
    and u: "\<And>a b. a < length cs \<Longrightarrow> b < length cs \<Longrightarrow> inside (cs ! a) \<Longrightarrow> inside (cs ! b) \<Longrightarrow> a = b"
    by (auto simp: exclusive_def)
  show ?thesis
  proof (cases "pc = Entry")
    case True
    from statement_Entry [OF st [unfolded True]]
    consider (lf) "op = Load_factor" "t' = t" "\<not> in_call c"
      | (lock) "op \<noteq> Load_factor" "\<not> table_mutex t" "table_mutex t'" "c = In_call op Locked"
      by blast
    then show ?thesis
    proof cases
      case lf
      then have nc: "\<not> inside c" by (auto simp: inside_iff)
      have ni: "\<not> inside (cs ! i)" by (simp add: ci True)
      have "inside (cs' ! j) = inside (cs ! j)" if "j < length cs" for j
        using that ni nc i by (cases "j = i") (simp_all add: eq)
      with ex len show ?thesis by (auto simp: exclusive_def lf(2))
    next
      case lock
      from lock(2) m have none: "\<And>j. j < length cs \<Longrightarrow> \<not> inside (cs ! j)" by blast
      have ic: "inside c" by (simp add: lock(4))
      have only: "inside (cs' ! j) \<longleftrightarrow> j = i" if "j < length cs" for j
        using that none ic i by (cases "j = i") (simp_all add: eq)
      show ?thesis
        unfolding exclusive_def using lock(3) i only by (auto simp: len)
    qed
  next
    case False
    then have ii: "inside (cs ! i)" by (simp add: ci inside_iff)
    with m i have held: "table_mutex t" by blast
    from ii u i have none: "\<And>j. j < length cs \<Longrightarrow> j \<noteq> i \<Longrightarrow> \<not> inside (cs ! j)" by blast
    from statement_inside [OF st False]
    consider (stay) "inside c" "table_mutex t' = table_mutex t"
      | (leave) "\<not> in_call c" "\<not> table_mutex t'"
      by blast
    then show ?thesis
    proof cases
      case stay
      have only: "inside (cs' ! j) \<longleftrightarrow> j = i" if "j < length cs" for j
        using that none stay(1) i by (cases "j = i") (simp_all add: eq)
      show ?thesis
        unfolding exclusive_def using stay(2) held i only by (auto simp: len)
    next
      case leave
      then have nc: "\<not> inside c" by (auto simp: inside_iff)
      have no: "\<not> inside (cs' ! j)" if "j < length cs" for j
        using that none nc i by (cases "j = i") (simp_all add: eq)
      show ?thesis
        unfolding exclusive_def using leave(2) no by (auto simp: len)
    qed
  qed
qed

lemma run_exclusive:
  "exclusive s \<Longrightarrow> run evs s = Some s' \<Longrightarrow> exclusive s'"
proof (induction evs arbitrary: s)
  case Nil
  then show ?case by simp
next
  case (Cons ev evs)
  from Cons.prems(2) obtain s1 where s1: "perform ev s = Some s1" "run evs s1 = Some s'"
    by (auto split: option.splits)
  from perform_exclusive [of "fst s" "snd s" ev "fst s1" "snd s1"] Cons.prems(1) s1(1)
  have "exclusive s1" by simp
  then show ?case using s1(2) by (rule Cons.IH)
qed

lemma run_length: "run evs (cs, t) = Some (cs', t') \<Longrightarrow> length cs' = length cs"
proof (induction evs arbitrary: cs t)
  case Nil
  then show ?case by simp
next
  case (Cons ev evs)
  from Cons.prems obtain s1 where s1: "perform ev (cs, t) = Some s1" "run evs s1 = Some (cs', t')"
    by (auto split: option.splits)
  from perform_length [of ev cs t "fst s1" "snd s1"] s1(1) have "length (fst s1) = length cs" by simp
  moreover from Cons.IH [of "fst s1" "snd s1"] s1(2) have "length cs' = length (fst s1)" by simp
  ultimately show ?case by simp
qed

lemma idle_exclusive: "\<not> table_mutex t \<Longrightarrow> exclusive (replicate n Idle, t)"
  by (simp add: exclusive_def)

lemma step_of_outsider:
  assumes ex: "exclusive (cs, t)" and i: "i < length cs" "inside (cs ! i)"
    and j: "j \<noteq> i" and p: "perform (Step j) (cs, t) = Some (cs', t')"
  shows "cs ! j = In_call Load_factor Entry \<and> t' = t"
proof -
  from p obtain op pc c where jl: "j < length cs" and cj: "cs ! j = In_call op pc"
      and st: "statement op pc t = Some (c, t')"
    by (auto split: if_splits caller.splits option.splits)
  from ex i have held: "table_mutex t" by (auto simp: exclusive_def)
  from ex i j jl have "\<not> inside (cs ! j)" by (auto simp: exclusive_def)
  with cj have pc: "pc = Entry" by (simp add: inside_iff)
  from statement_Entry [OF st [unfolded pc]] held
  show ?thesis by (auto simp: cj pc)
qed

text \<open>
  The statements of a call, run without interruption, compute the member function of the
  sections above; on a held mutex no statement of the call runs.
\<close>

lemma complete_Got [simp]: "complete n (Got r) t = (Got r, t)"
  by (cases n) simp_all

lemma remove_eq: "remove k t = lock_guard t (remove_scan k)"
  by (simp add: remove_def remove_scan_def [abs_def])

lemma update_eq: "update k u t = lock_guard t (update_scan k u)"
  by (simp add: update_def update_scan_def [abs_def])

lemma get_statistics_eq: "get_statistics t = lock_guard_const t statistics_scan"
  by (simp add: get_statistics_def statistics_scan_def [abs_def])

lemma alone_blocked:
  "table_mutex t \<Longrightarrow> op \<noteq> Load_factor \<Longrightarrow> complete n (In_call op Entry) t = (In_call op Entry, t)"
  by (cases n; cases op) (simp_all add: statement_def)

lemma alone_load_factor:
  "complete (Suc n) (In_call Load_factor Entry) t = (Got (Ratio (load_factor t)), t)"
  by (simp add: statement_def)

lemma alone_insert:
  assumes "insert_ht e t = Returned (r, t')"
  shows "complete 6 (In_call (Insert e) Entry) t = (Got (thrown_or_flag r), t')"
proof -
  from assms have nm: "\<not> table_mutex t"
    by (auto simp: insert_ht_def lock_guard_def split: if_splits)
  let ?L = "t\<lparr>table_mutex := True\<rparr>"
  show ?thesis
  proof (cases "validate e")
    case (Inl ex)
    with assms nm show ?thesis
      by (auto simp: insert_ht_def lock_guard_def statement_def eval_nat_numeral)
  next
    case (Inr u)
    obtain b t1 where ii: "insert_internal e ?L = (b, t1)" by (cases "insert_internal e ?L")
    show ?thesis
    proof (cases b)
      case False
      with assms nm Inr ii show ?thesis
        by (auto simp: insert_ht_def lock_guard_def statement_def eval_nat_numeral)
    next
      case True
      with assms nm Inr ii show ?thesis
        by (cases "load_factor t1 > MAX_LOAD_FACTOR")
           (auto simp: insert_ht_def lock_guard_def statement_def eval_nat_numeral)
    qed
  qed
qed

lemma alone_remove:
  assumes "remove k t = Returned (b, t')"
  shows "complete 3 (In_call (Remove k) Entry) t = (Got (Flag b), t')"
  using assms
  by (auto simp: remove_eq lock_guard_def statement_def eval_nat_numeral split: if_splits prod.splits)

lemma alone_find:
  assumes "find_ht k t = Returned r"
  shows "complete 3 (In_call (Find k) Entry) t = (Got (Pointer r), t)"
  using assms
  by (auto simp: find_ht_def lookup_def lock_guard_const_def statement_def eval_nat_numeral
      split: if_splits)

lemma alone_update:
  assumes "update k u t = Returned (r, t')"
  shows "complete 3 (In_call (Update k u) Entry) t = (Got (thrown_or_flag r), t')"
  using assms
  by (auto simp: update_eq lock_guard_def statement_def eval_nat_numeral
      split: if_splits prod.splits sum.splits)

lemma alone_search:
  assumes "search criteria t = Returned rs"
  shows "complete 3 (In_call (Search criteria) Entry) t = (Got (Copies rs), t)"
  using assms
  by (auto simp: search_def lock_guard_const_def statement_def eval_nat_numeral split: if_splits)

lemma alone_get_all:
  assumes "get_all t = Returned rs"
  shows "complete 3 (In_call Get_all Entry) t = (Got (Copies rs), t)"
  using assms
  by (auto simp: get_all_def search_def lock_guard_const_def statement_def eval_nat_numeral
      split: if_splits)

lemma alone_size:
  assumes "size_ht t = Returned n"
  shows "complete 3 (In_call Size Entry) t = (Got (Count n), t)"
  using assms
  by (auto simp: size_ht_def lock_guard_const_def statement_def eval_nat_numeral split: if_splits)

lemma alone_get_statistics:
  assumes "get_statistics t = Returned st"
  shows "complete 3 (In_call Get_statistics Entry) t = (Got (Printed st), t)"
  using assms
  by (auto simp: get_statistics_eq lock_guard_const_def statement_def eval_nat_numeral
      split: if_splits)


section \<open>Concrete runs\<close>

text \<open>
  The runs that the witnesses and counterexamples use, evaluated step by step: validation,
  hash values, and each call with the table it returns.
\<close>

lemmas validator_defs = validate_def isValidID_def isValidName_def isValidPosition_def
  isValidSalary_def is_upper_def is_digit_def is_alpha_def is_lower_def is_space_def

lemmas hash_defs = hash_def FNV_OFFSET_BASIS_def FNV_PRIME_def char_to_size_t_def

lemma sample_id [simp]: "id_emp (sample_employee k n) = k"
  by (simp add: sample_employee_def)

lemma replicate_small:
  "replicate 2 x = [x, x]" "replicate 3 x = [x, x, x]" "replicate 5 x = [x, x, x, x, x]"
  by (simp_all add: eval_nat_numeral)

lemma sample_valid_pair:
  "validate (sample_employee ''AA0001'' ''Ann'') = Inr ()"
  "validate (sample_employee ''AA0000'' ''Bob'') = Inr ()"
  by (simp_all add: sample_employee_def validator_defs)

lemma sample_valid_more:
  "validate (sample_employee ''AA0000'' ''Stray'') = Inr ()"
  "validate (sample_employee ''AA0002'' ''Bob'') = Inr ()"
  "validate (sample_employee ''AA0002'' ''Xavier'') = Inr ()"
  "validate (sample_employee ''ZZ9999'' ''Zed'') = Inr ()"
  by (simp_all add: sample_employee_def validator_defs)


lemma sample_invalid:
  "validate (sample_employee ''bad'' ''Ann'') = Inl (EmployeeException ''Invalid employee ID format'')"
  by (simp add: sample_employee_def validator_defs)

lemma thirteen_valid: "\<forall>e \<in> set thirteen. validate e = Inr ()"
  by (simp add: thirteen_def sample_employee_def validator_defs)

lemma sample_neq:
  "sample_employee ''AA0000'' ''Stray'' \<noteq> sample_employee ''AA0000'' ''Bob''"
  by (simp add: sample_employee_def)

lemma sample_hash_pair:
  "hash ''AA0001'' 2 = 0" "hash ''AA0000'' 2 = 1" "hash ''AA0000'' 5 = 4" "hash ''AA0001'' 5 = 3"
  by (simp_all add: hash_defs)

lemma sample_hash_3: "hash ''AA0001'' 3 = 1" "hash ''AA0002'' 3 = 1"
  by (simp_all add: hash_defs)

lemma sample_hash_Z: "hash ''ZZ9999'' 2 = 1"
  by (simp add: hash_defs)


lemma new_2: "EmployeeHashTable_new 2 =
    \<lparr>table = [[], []], bucket_count = 2, element_count = 0, table_mutex = False\<rparr>"
  by (simp add: EmployeeHashTable_new_def next_prime_small replicate_small)

lemma new_3: "EmployeeHashTable_new 3 =
    \<lparr>table = [[], [], []], bucket_count = 3, element_count = 0, table_mutex = False\<rparr>"
  by (simp add: EmployeeHashTable_new_def next_prime_small replicate_small)

lemma new_17: "bucket_count (EmployeeHashTable_new 17) = 17"
  by (simp add: new_table_simps next_prime_small)

lemma run_two_first:
  "insert_ht (sample_employee ''AA0001'' ''Ann'') (EmployeeHashTable_new 2) =
   Returned (Inr True,
     \<lparr>table = [[sample_employee ''AA0001'' ''Ann''], []],
      bucket_count = 2, element_count = 1, table_mutex = False\<rparr>)"
  by (simp add: new_2 insert_ht_unlocked sample_valid_pair insert_internal_def sample_hash_pair
      load_factor_def MAX_LOAD_FACTOR_def Let_def)

lemma run_two_second:
  "insert_ht (sample_employee ''AA0000'' ''Bob'')
     \<lparr>table = [[sample_employee ''AA0001'' ''Ann''], []],
      bucket_count = 2, element_count = 1, table_mutex = False\<rparr> =
   Returned (Inr True,
     \<lparr>table = [[], [], [], [sample_employee ''AA0001'' ''Ann''],
               [sample_employee ''AA0000'' ''Bob'']],
      bucket_count = 5, element_count = 2, table_mutex = False\<rparr>)"
  by (simp add: insert_ht_unlocked sample_valid_pair next_prime_small replicate_small
      insert_internal_def sample_hash_pair load_factor_def MAX_LOAD_FACTOR_def Let_def rehash_def)

lemma reachable_run_two:
  "reachable
     \<lparr>table = [[], [], [], [sample_employee ''AA0001'' ''Ann''],
               [sample_employee ''AA0000'' ''Bob'']],
      bucket_count = 5, element_count = 2, table_mutex = False\<rparr>"
  by (rule reachable.inserted [OF reachable.inserted [OF reachable.constructed run_two_first]
        run_two_second])

lemma run_A_update:
  "update ''AA0001'' (sample_employee ''AA0000'' ''Stray'')
     \<lparr>table = [[sample_employee ''AA0001'' ''Ann''], []],
      bucket_count = 2, element_count = 1, table_mutex = False\<rparr> =
   Returned (Inr True,
     \<lparr>table = [[sample_employee ''AA0000'' ''Stray''], []],
      bucket_count = 2, element_count = 1, table_mutex = False\<rparr>)"
  by (simp add: update_def lock_guard_def sample_hash_pair sample_valid_more Let_def)

lemma run_A_insert_internal:
  "insert_internal (sample_employee ''AA0000'' ''Bob'')
     \<lparr>table = [[sample_employee ''AA0000'' ''Stray''], []],
      bucket_count = 2, element_count = 1, table_mutex = True\<rparr> =
   (True,
     \<lparr>table = [[sample_employee ''AA0000'' ''Stray''], [sample_employee ''AA0000'' ''Bob'']],
      bucket_count = 2, element_count = 2, table_mutex = True\<rparr>)"
  by (simp add: insert_internal_def sample_hash_pair Let_def)

lemma run_A_rehash:
  "rehash
     \<lparr>table = [[sample_employee ''AA0000'' ''Stray''], [sample_employee ''AA0000'' ''Bob'']],
      bucket_count = 2, element_count = 2, table_mutex = True\<rparr> =
     \<lparr>table = [[], [], [], [], [sample_employee ''AA0000'' ''Stray'']],
      bucket_count = 5, element_count = 1, table_mutex = True\<rparr>"
  by (simp add: rehash_def next_prime_small replicate_small insert_internal_def sample_hash_pair Let_def)

lemma run_A_insert:
  "insert_ht (sample_employee ''AA0000'' ''Bob'')
     \<lparr>table = [[sample_employee ''AA0000'' ''Stray''], []],
      bucket_count = 2, element_count = 1, table_mutex = False\<rparr> =
   Returned (Inr True,
     \<lparr>table = [[], [], [], [], [sample_employee ''AA0000'' ''Stray'']],
      bucket_count = 5, element_count = 1, table_mutex = False\<rparr>)"
  by (simp add: insert_ht_def lock_guard_def sample_valid_pair run_A_insert_internal run_A_rehash
      load_factor_def MAX_LOAD_FACTOR_def del: One_nat_def)

lemma run_A_find:
  "find_ht ''AA0000''
     \<lparr>table = [[], [], [], [], [sample_employee ''AA0000'' ''Stray'']],
      bucket_count = 5, element_count = 1, table_mutex = False\<rparr> =
   Returned (Some (sample_employee ''AA0000'' ''Stray''))"
  by (simp add: find_ht_def lock_guard_const_def sample_hash_pair)

lemma run_B_first:
  "insert_ht (sample_employee ''AA0001'' ''Ann'') (EmployeeHashTable_new 3) =
   Returned (Inr True,
     \<lparr>table = [[], [sample_employee ''AA0001'' ''Ann''], []],
      bucket_count = 3, element_count = 1, table_mutex = False\<rparr>)"
  by (simp add: new_3 insert_ht_unlocked sample_valid_pair insert_internal_def sample_hash_3
      load_factor_def MAX_LOAD_FACTOR_def Let_def)

lemma run_B_second:
  "insert_ht (sample_employee ''AA0002'' ''Bob'')
     \<lparr>table = [[], [sample_employee ''AA0001'' ''Ann''], []],
      bucket_count = 3, element_count = 1, table_mutex = False\<rparr> =
   Returned (Inr True,
     \<lparr>table = [[], [sample_employee ''AA0002'' ''Bob'', sample_employee ''AA0001'' ''Ann''], []],
      bucket_count = 3, element_count = 2, table_mutex = False\<rparr>)"
  by (simp add: insert_ht_unlocked sample_valid_more insert_internal_def sample_hash_3
      load_factor_def MAX_LOAD_FACTOR_def Let_def)

lemma run_B_update1:
  "update ''AA0001'' (sample_employee ''AA0002'' ''Xavier'')
     \<lparr>table = [[], [sample_employee ''AA0002'' ''Bob'', sample_employee ''AA0001'' ''Ann''], []],
      bucket_count = 3, element_count = 2, table_mutex = False\<rparr> =
   Returned (Inr True,
     \<lparr>table = [[], [sample_employee ''AA0002'' ''Bob'', sample_employee ''AA0002'' ''Xavier''], []],
      bucket_count = 3, element_count = 2, table_mutex = False\<rparr>)"
  by (simp add: update_def lock_guard_def sample_hash_3 sample_valid_more Let_def)

lemma run_B_find_before:
  "find_ht ''AA0002''
     \<lparr>table = [[], [sample_employee ''AA0002'' ''Bob'', sample_employee ''AA0002'' ''Xavier''], []],
      bucket_count = 3, element_count = 2, table_mutex = False\<rparr> =
   Returned (Some (sample_employee ''AA0002'' ''Bob''))"
  by (simp add: find_ht_def lock_guard_const_def sample_hash_3)

lemma run_B_update2:
  "update ''AA0002'' (sample_employee ''ZZ9999'' ''Zed'')
     \<lparr>table = [[], [sample_employee ''AA0002'' ''Bob'', sample_employee ''AA0002'' ''Xavier''], []],
      bucket_count = 3, element_count = 2, table_mutex = False\<rparr> =
   Returned (Inr True,
     \<lparr>table = [[], [sample_employee ''ZZ9999'' ''Zed'', sample_employee ''AA0002'' ''Xavier''], []],
      bucket_count = 3, element_count = 2, table_mutex = False\<rparr>)"
  by (simp add: update_def lock_guard_def sample_hash_3 sample_valid_more Let_def)

lemma run_B_find_after:
  "find_ht ''AA0002''
     \<lparr>table = [[], [sample_employee ''ZZ9999'' ''Zed'', sample_employee ''AA0002'' ''Xavier''], []],
      bucket_count = 3, element_count = 2, table_mutex = False\<rparr> =
   Returned (Some (sample_employee ''AA0002'' ''Xavier''))"
  by (simp add: find_ht_def lock_guard_const_def sample_hash_3)

lemma sample_hash_stray: "hash ''AA0000'' 3 = 2"
  by (simp add: hash_defs)

lemma run_C_update:
  "update ''AA0001'' (sample_employee ''AA0000'' ''Stray'')
     \<lparr>table = [[], [sample_employee ''AA0001'' ''Ann''], []],
      bucket_count = 3, element_count = 1, table_mutex = False\<rparr> =
   Returned (Inr True,
     \<lparr>table = [[], [sample_employee ''AA0000'' ''Stray''], []],
      bucket_count = 3, element_count = 1, table_mutex = False\<rparr>)"
  by (simp add: update_def lock_guard_def sample_hash_3 sample_valid_more Let_def)



lemma run_C_insert:
  "insert_ht (sample_employee ''AA0000'' ''Bob'')
     \<lparr>table = [[], [sample_employee ''AA0000'' ''Stray''], []],
      bucket_count = 3, element_count = 1, table_mutex = False\<rparr> =
   Returned (Inr True,
     \<lparr>table = [[], [sample_employee ''AA0000'' ''Stray''], [sample_employee ''AA0000'' ''Bob'']],
      bucket_count = 3, element_count = 2, table_mutex = False\<rparr>)"
  by (simp add: insert_ht_unlocked sample_valid_pair insert_internal_def sample_hash_stray
      load_factor_def MAX_LOAD_FACTOR_def Let_def)

lemma run_C_find:
  "find_ht ''AA0000''
     \<lparr>table = [[], [sample_employee ''AA0000'' ''Stray''], [sample_employee ''AA0000'' ''Bob'']],
      bucket_count = 3, element_count = 2, table_mutex = False\<rparr> =
   Returned (Some (sample_employee ''AA0000'' ''Bob''))"
  by (simp add: find_ht_def lock_guard_const_def sample_hash_stray)


lemma statement_lock:
  "\<not> table_mutex t \<Longrightarrow> op \<noteq> Load_factor \<Longrightarrow>
   statement op Entry t = Some (In_call op Locked, t\<lparr>table_mutex := True\<rparr>)"
  by (cases op) (simp_all add: statement_def)

lemma statement_blocked:
  "table_mutex t \<Longrightarrow> op \<noteq> Load_factor \<Longrightarrow> statement op Entry t = None"
  by (cases op) (simp_all add: statement_def)

lemma statement_simps:
  "statement Load_factor Entry t = Some (Got (Ratio (load_factor t)), t)"
  "statement (Insert e) Locked t =
     (case validate e of
        Inl ex \<Rightarrow> Some (In_call (Insert e) (Leaving (Thrown ex)), t)
      | Inr _ \<Rightarrow> Some (In_call (Insert e) Validated, t))"
  "statement (Insert e) Validated t =
     (case insert_internal e t of
        (inserted, t') \<Rightarrow>
          Some (In_call (Insert e) (if inserted then Inserted else Leaving (Flag False)), t'))"
  "statement (Insert e) Inserted t =
     Some (In_call (Insert e)
       (if load_factor t > MAX_LOAD_FACTOR then Rehashing else Leaving (Flag True)), t)"
  "statement (Insert e) Rehashing t = Some (In_call (Insert e) (Leaving (Flag True)), rehash t)"
  "statement op (Leaving r) t = Some (Got r, t\<lparr>table_mutex := False\<rparr>)"
  by (simp_all add: statement_def)

lemma run_D_insert_internal:
  "insert_internal (sample_employee ''AA0000'' ''Bob'')
     \<lparr>table = [[sample_employee ''AA0001'' ''Ann''], []],
      bucket_count = 2, element_count = 1, table_mutex = True\<rparr> =
   (True,
     \<lparr>table = [[sample_employee ''AA0001'' ''Ann''], [sample_employee ''AA0000'' ''Bob'']],
      bucket_count = 2, element_count = 2, table_mutex = True\<rparr>)"
  by (simp add: insert_internal_def sample_hash_pair Let_def)

lemma small_lists:
  "(a # as)[0 := x] = x # as"
  "[a, b] ! 1 = b" "[a, b][1 := x] = [a, x]"
  "[a, b, c] ! 1 = b" "[a, b, c] ! 2 = c"
  "[a, b, c][1 := x] = [a, x, c]" "[a, b, c][2 := x] = [a, b, x]"
  by (simp_all add: numeral_2_eq_2)

lemma run_D_waiting:
  "run [Call 0 (Insert (sample_employee ''AA0000'' ''Bob'')), Step 0, Step 0, Step 0,
        Call 1 Load_factor, Call 2 Size]
     ([Idle, Idle, Idle],
      \<lparr>table = [[sample_employee ''AA0001'' ''Ann''], []],
       bucket_count = 2, element_count = 1, table_mutex = False\<rparr>) =
   Some ([In_call (Insert (sample_employee ''AA0000'' ''Bob'')) Inserted,
          In_call Load_factor Entry, In_call Size Entry],
     \<lparr>table = [[sample_employee ''AA0001'' ''Ann''], [sample_employee ''AA0000'' ''Bob'']],
      bucket_count = 2, element_count = 2, table_mutex = True\<rparr>)"
  by (simp add: statement_lock statement_simps sample_valid_pair run_D_insert_internal
      small_lists del: One_nat_def list_update.simps)

lemma run_D_size_waits:
  "perform (Step 2)
     ([In_call (Insert (sample_employee ''AA0000'' ''Bob'')) Inserted,
       In_call Load_factor Entry, In_call Size Entry],
      \<lparr>table = [[sample_employee ''AA0001'' ''Ann''], [sample_employee ''AA0000'' ''Bob'']],
       bucket_count = 2, element_count = 2, table_mutex = True\<rparr>) = None"
  by (simp add: statement_blocked small_lists)

lemma run_D_load_factor_returns:
  "perform (Step 1)
     ([In_call (Insert (sample_employee ''AA0000'' ''Bob'')) Inserted,
       In_call Load_factor Entry, In_call Size Entry],
      \<lparr>table = [[sample_employee ''AA0001'' ''Ann''], [sample_employee ''AA0000'' ''Bob'']],
       bucket_count = 2, element_count = 2, table_mutex = True\<rparr>) =
   Some ([In_call (Insert (sample_employee ''AA0000'' ''Bob'')) Inserted,
          Got (Ratio 1), In_call Size Entry],
     \<lparr>table = [[sample_employee ''AA0001'' ''Ann''], [sample_employee ''AA0000'' ''Bob'']],
      bucket_count = 2, element_count = 2, table_mutex = True\<rparr>)"
  by (simp add: statement_simps load_factor_def small_lists del: One_nat_def list_update.simps)

lemma max_load_factor_below_1: "MAX_LOAD_FACTOR < 1"
  by (simp add: MAX_LOAD_FACTOR_def)

lemma run_E_rehashing:
  "run [Call 0 (Insert (sample_employee ''AA0000'' ''Bob'')), Call 1 Size,
        Step 0, Step 0, Step 0, Step 0]
     ([Idle, Idle],
      \<lparr>table = [[sample_employee ''AA0001'' ''Ann''], []],
       bucket_count = 2, element_count = 1, table_mutex = False\<rparr>) =
   Some ([In_call (Insert (sample_employee ''AA0000'' ''Bob'')) Rehashing, In_call Size Entry],
     \<lparr>table = [[sample_employee ''AA0001'' ''Ann''], [sample_employee ''AA0000'' ''Bob'']],
      bucket_count = 2, element_count = 2, table_mutex = True\<rparr>)"
  by (simp add: statement_lock statement_simps sample_valid_pair run_D_insert_internal
      load_factor_def MAX_LOAD_FACTOR_def small_lists del: One_nat_def list_update.simps)

lemma run_E_size_waits:
  "perform (Step 1)
     ([In_call (Insert (sample_employee ''AA0000'' ''Bob'')) Rehashing, In_call Size Entry],
      \<lparr>table = [[sample_employee ''AA0001'' ''Ann''], [sample_employee ''AA0000'' ''Bob'']],
       bucket_count = 2, element_count = 2, table_mutex = True\<rparr>) = None"
  by (simp add: statement_blocked small_lists del: One_nat_def list_update.simps)

lemma run_A_stored:
  "map id_emp (stored
     \<lparr>table = [[sample_employee ''AA0000'' ''Stray''], [sample_employee ''AA0000'' ''Bob'']],
      bucket_count = 2, element_count = 2, table_mutex = True\<rparr>) = [''AA0000'', ''AA0000'']"
  "stored (rehash
     \<lparr>table = [[sample_employee ''AA0000'' ''Stray''], [sample_employee ''AA0000'' ''Bob'']],
      bucket_count = 2, element_count = 2, table_mutex = True\<rparr>) =
     [sample_employee ''AA0000'' ''Stray'']"
  "element_count (rehash
     \<lparr>table = [[sample_employee ''AA0000'' ''Stray''], [sample_employee ''AA0000'' ''Bob'']],
      bucket_count = 2, element_count = 2, table_mutex = True\<rparr>) = 1"
  by (simp_all add: run_A_rehash stored_def)

section \<open>The claims\<close>

text \<open>
  C1. Start from a freshly constructed table, of any requested capacity, and call
  \<^verbatim>\<open>insert\<close> any number of times. After every call that returns, whether it inserted,
  found a duplicate or rejected the employee, \<open>element_count / bucket_count\<close> is at most
  \<open>0.75\<close>: an insert that lifts the load factor above the bound rehashes before it returns.
\<close>

theorem C1_load_factor_bound:
  "inserts_from n t \<Longrightarrow> load_factor t \<le> MAX_LOAD_FACTOR"
proof -
  assume "inserts_from n t"
  then have "insert_inv t" by (rule inserts_from_inv [OF big_prime])
  then show ?thesis by (simp add: insert_inv_def load_factor_le)
qed

text \<open>
  The bound on a run that rehashes: two inserts into a table of 2 buckets; the second
  lifts the load factor to 1 and the table grows to 5 buckets.
\<close>

theorem C1_load_factor_bound_witness:
  "inserts_from 2
     \<lparr>table = [[], [], [], [sample_employee ''AA0001'' ''Ann''],
               [sample_employee ''AA0000'' ''Bob'']],
      bucket_count = 5, element_count = 2, table_mutex = False\<rparr> \<and>
   load_factor
     \<lparr>table = [[], [], [], [sample_employee ''AA0001'' ''Ann''],
               [sample_employee ''AA0000'' ''Bob'']],
      bucket_count = 5, element_count = 2, table_mutex = False\<rparr> \<le> MAX_LOAD_FACTOR"
proof -
  have "inserts_from 2
     \<lparr>table = [[], [], [], [sample_employee ''AA0001'' ''Ann''],
               [sample_employee ''AA0000'' ''Bob'']],
      bucket_count = 5, element_count = 2, table_mutex = False\<rparr>"
    by (rule inserts_from.step [OF inserts_from.step [OF inserts_from.fresh run_two_first] run_two_second])
  then show ?thesis using C1_load_factor_bound by blast
qed

text \<open>
  C2, as stated, fails where the key is absent: \<^verbatim>\<open>update\<close> looks for the node first and
  calls \<^verbatim>\<open>validate\<close> only in the branch that found it. On a fresh table an invalid
  employee is not reported; the call returns \<^verbatim>\<open>false\<close>.
\<close>

theorem C2_counterexample:
  "validate (sample_employee ''bad'' ''Ann'') =
     Inl (EmployeeException ''Invalid employee ID format'') \<and>
   update ''ZZ9999'' (sample_employee ''bad'' ''Ann'') (EmployeeHashTable_new 17) =
     Returned (Inr False, EmployeeHashTable_new 17)"
  using update_invalid [OF sample_invalid find_ht_new, of "''ZZ9999''" 17]
  by (simp add: sample_invalid)

text \<open>
  C2 (amended). For every table and every call \<^verbatim>\<open>update(key, new_record)\<close> with an invalid
  \<open>new_record\<close> that returns: when a record with that key is found, the call ends with
  the validation error; when none is found, it returns \<^verbatim>\<open>false\<close> and \<open>new_record\<close> is not
  validated. In both cases the table is left as it was, the stored record included.
\<close>

theorem C2_update_invalid:
  "validate updated_emp = Inl ex \<Longrightarrow> find_ht k t = Returned found \<Longrightarrow>
   update k updated_emp t =
     Returned ((case found of Some old \<Rightarrow> Inl ex | None \<Rightarrow> Inr False), t)"
  by (rule update_invalid)

text \<open>Both cases on a table of two buckets that stores AA0001.\<close>

theorem C2_update_invalid_witness:
  "validate (sample_employee ''bad'' ''Ann'') =
     Inl (EmployeeException ''Invalid employee ID format'') \<and>
   find_ht ''AA0001''
     \<lparr>table = [[sample_employee ''AA0001'' ''Ann''], []],
      bucket_count = 2, element_count = 1, table_mutex = False\<rparr> =
     Returned (Some (sample_employee ''AA0001'' ''Ann'')) \<and>
   update ''AA0001'' (sample_employee ''bad'' ''Ann'')
     \<lparr>table = [[sample_employee ''AA0001'' ''Ann''], []],
      bucket_count = 2, element_count = 1, table_mutex = False\<rparr> =
     Returned (Inl (EmployeeException ''Invalid employee ID format''),
       \<lparr>table = [[sample_employee ''AA0001'' ''Ann''], []],
        bucket_count = 2, element_count = 1, table_mutex = False\<rparr>) \<and>
   find_ht ''ZZ9999''
     \<lparr>table = [[sample_employee ''AA0001'' ''Ann''], []],
      bucket_count = 2, element_count = 1, table_mutex = False\<rparr> = Returned None \<and>
   update ''ZZ9999'' (sample_employee ''bad'' ''Ann'')
     \<lparr>table = [[sample_employee ''AA0001'' ''Ann''], []],
      bucket_count = 2, element_count = 1, table_mutex = False\<rparr> =
     Returned (Inr False,
       \<lparr>table = [[sample_employee ''AA0001'' ''Ann''], []],
        bucket_count = 2, element_count = 1, table_mutex = False\<rparr>)"
proof -
  let ?t = "\<lparr>table = [[sample_employee ''AA0001'' ''Ann''], []],
      bucket_count = 2, element_count = 1, table_mutex = False\<rparr>"
  have f1: "find_ht ''AA0001'' ?t = Returned (Some (sample_employee ''AA0001'' ''Ann''))"
    by (simp add: find_ht_def lock_guard_const_def sample_hash_pair)
  have f2: "find_ht ''ZZ9999'' ?t = Returned None"
    by (simp add: find_ht_def lock_guard_const_def sample_hash_Z)
  from C2_update_invalid [OF sample_invalid f1] C2_update_invalid [OF sample_invalid f2]
  show ?thesis using f1 f2 sample_invalid by simp
qed

text \<open>
  C3 does not hold of the code: \<^verbatim>\<open>rehash\<close> can lose a record. Its loop ("Reinsert all
  elements") hands every node to \<^verbatim>\<open>insert_internal\<close> and ignores the result, so a node
  whose id was reinserted before it is destroyed. Public calls build such a table:
  \<^verbatim>\<open>update("AA0001", stray)\<close>, where \<open>stray\<close> has the id AA0000, leaves \<open>stray\<close> in the chain
  of AA0001; \<^verbatim>\<open>insert\<close> of a valid employee of id AA0000 then finds no duplicate in its own
  chain, and the rehash it triggers starts from two nodes of id AA0000 and
  \<open>element_count = 2\<close> and ends with one node and \<open>element_count = 1\<close>, where C3 says that
  the keys, the records and \<open>element_count\<close> are the same before and after.
\<close>

theorem C3_rehash_drops_record:
  "insert_ht (sample_employee ''AA0001'' ''Ann'') (EmployeeHashTable_new 2) =
     Returned (Inr True,
       \<lparr>table = [[sample_employee ''AA0001'' ''Ann''], []],
        bucket_count = 2, element_count = 1, table_mutex = False\<rparr>) \<and>
   update ''AA0001'' (sample_employee ''AA0000'' ''Stray'')
     \<lparr>table = [[sample_employee ''AA0001'' ''Ann''], []],
      bucket_count = 2, element_count = 1, table_mutex = False\<rparr> =
     Returned (Inr True,
       \<lparr>table = [[sample_employee ''AA0000'' ''Stray''], []],
        bucket_count = 2, element_count = 1, table_mutex = False\<rparr>) \<and>
   insert_internal (sample_employee ''AA0000'' ''Bob'')
     \<lparr>table = [[sample_employee ''AA0000'' ''Stray''], []],
      bucket_count = 2, element_count = 1, table_mutex = True\<rparr> =
     (True,
       \<lparr>table = [[sample_employee ''AA0000'' ''Stray''], [sample_employee ''AA0000'' ''Bob'']],
        bucket_count = 2, element_count = 2, table_mutex = True\<rparr>) \<and>
   rehash
     \<lparr>table = [[sample_employee ''AA0000'' ''Stray''], [sample_employee ''AA0000'' ''Bob'']],
      bucket_count = 2, element_count = 2, table_mutex = True\<rparr> =
     \<lparr>table = [[], [], [], [], [sample_employee ''AA0000'' ''Stray'']],
      bucket_count = 5, element_count = 1, table_mutex = True\<rparr> \<and>
   insert_ht (sample_employee ''AA0000'' ''Bob'')
     \<lparr>table = [[sample_employee ''AA0000'' ''Stray''], []],
      bucket_count = 2, element_count = 1, table_mutex = False\<rparr> =
     Returned (Inr True,
       \<lparr>table = [[], [], [], [], [sample_employee ''AA0000'' ''Stray'']],
        bucket_count = 5, element_count = 1, table_mutex = False\<rparr>) \<and>
   map id_emp (stored
     \<lparr>table = [[sample_employee ''AA0000'' ''Stray''], [sample_employee ''AA0000'' ''Bob'']],
      bucket_count = 2, element_count = 2, table_mutex = True\<rparr>) = [''AA0000'', ''AA0000''] \<and>
   stored (rehash
     \<lparr>table = [[sample_employee ''AA0000'' ''Stray''], [sample_employee ''AA0000'' ''Bob'']],
      bucket_count = 2, element_count = 2, table_mutex = True\<rparr>) =
     [sample_employee ''AA0000'' ''Stray''] \<and>
   element_count (rehash
     \<lparr>table = [[sample_employee ''AA0000'' ''Stray''], [sample_employee ''AA0000'' ''Bob'']],
      bucket_count = 2, element_count = 2, table_mutex = True\<rparr>) = 1"
  by (intro conjI run_two_first run_A_update run_A_insert_internal run_A_rehash run_A_insert
      run_A_stored)

text \<open>
  C4. Construct a table with initial bucket count 17 and insert any 13 valid employees
  with 13 different ids: every insert returns \<^verbatim>\<open>true\<close>, the table then has
  \<open>next_prime 34 = 37\<close> buckets, and \<^verbatim>\<open>find\<close> returns each of the 13 employees.
\<close>

theorem C4_thirteen_inserts:
  assumes len: "length es = 13"
    and dis: "distinct (map id_emp es)"
    and val: "\<forall>e \<in> set es. validate e = Inr ()"
  shows "\<exists>t. insert_all es (EmployeeHashTable_new 17) = Returned (replicate 13 (Inr True), t) \<and>
           bucket_count t = next_prime 34 \<and> next_prime 34 = 37 \<and>
           (\<forall>e \<in> set es. find_ht (id_emp e) t = Returned (Some e))"
proof -
  let ?t0 = "EmployeeHashTable_new 17"
  from len have ne: "es \<noteq> []" by auto
  define fs where "fs = butlast es"
  define l where "l = last es"
  have es: "es = fs @ [l]" using ne by (simp add: fs_def l_def)
  have lfs: "length fs = 12" using len by (simp add: fs_def)
  have "\<exists>t'. insert_all fs ?t0 = Returned (replicate (length fs) (Inr True), t') \<and>
        table_inv t' \<and> \<not> table_mutex t' \<and>
        mset (stored t') = mset (stored ?t0) + mset fs \<and>
        element_count t' = element_count ?t0 + length fs \<and>
        bucket_count t' = bucket_count ?t0"
    using dis val lfs
    by (intro insert_all_no_rehash) (simp_all add: es new_table_inv new_table_simps next_prime_small)
  then obtain t12 where t12: "insert_all fs ?t0 = Returned (replicate 12 (Inr True), t12)"
      "table_inv t12" "\<not> table_mutex t12" "mset (stored t12) = mset fs"
      "element_count t12 = 12" "bucket_count t12 = 17"
    by (auto simp: lfs new_table_simps next_prime_small)
  from t12(4) have "set (stored t12) = set fs" by (metis set_mset_mset)
  with dis have new: "id_emp l \<notin> id_emp ` set (stored t12)" by (auto simp: es)
  have vl: "validate l = Inr ()" using val by (simp add: es)
  from insert_ht_new_key [OF t12(2,3) vl new]
  obtain t where t: "insert_ht l t12 = Returned (Inr True, t)" "table_inv t" "\<not> table_mutex t"
      "mset (stored t) = add_mset l (mset (stored t12))" "bucket_count t = next_prime 34"
    by (auto simp: t12(5,6))
  from t(1) have "insert_all [l] t12 = Returned ([Inr True], t)" by simp
  from insert_all_append [OF t12(1) this]
  have run: "insert_all es ?t0 = Returned (replicate 13 (Inr True), t)"
    by (simp add: es eval_nat_numeral replicate_append_same)
  have "set (stored t) = set es"
    using t(4) t12(4) by (metis es mset.simps(2) mset_append set_mset_mset union_mset_add_mset_right add.right_neutral mset.simps(1))
  then have "\<forall>e \<in> set es. find_ht (id_emp e) t = Returned (Some e)"
    using t(2,3) by (simp add: find_ht_unlocked table_inv_lookup)
  with run t(5) show ?thesis by (auto simp: next_prime_small)
qed

text \<open>The ids AA0000 to AA0012.\<close>

theorem C4_thirteen_inserts_witness:
  "length thirteen = 13 \<and> distinct (map id_emp thirteen) \<and>
   list_all (\<lambda>e. validate e = Inr ()) thirteen \<and>
   (\<exists>t. insert_all thirteen (EmployeeHashTable_new 17) = Returned (replicate 13 (Inr True), t) \<and>
        bucket_count t = 37 \<and>
        find_ht ''AA0000'' t = Returned (Some (sample_employee ''AA0000'' ''Ann'')) \<and>
        find_ht ''AA0012'' t = Returned (Some (sample_employee ''AA0012'' ''Ann'')))"
proof -
  have len: "length thirteen = 13" by (simp add: thirteen_def)
  have dis: "distinct (map id_emp thirteen)" by (simp add: thirteen_def)
  from C4_thirteen_inserts [OF len dis thirteen_valid]
  obtain t where t: "insert_all thirteen (EmployeeHashTable_new 17) = Returned (replicate 13 (Inr True), t)"
     "bucket_count t = 37" "\<forall>e \<in> set thirteen. find_ht (id_emp e) t = Returned (Some e)"
    by auto
  have "sample_employee ''AA0000'' ''Ann'' \<in> set thirteen"
       "sample_employee ''AA0012'' ''Ann'' \<in> set thirteen"
    by (simp_all add: thirteen_def)
  with t(3) have "find_ht ''AA0000'' t = Returned (Some (sample_employee ''AA0000'' ''Ann''))"
    "find_ht ''AA0012'' t = Returned (Some (sample_employee ''AA0012'' ''Ann''))"
    by force+
  with t(1,2) len dis thirteen_valid show ?thesis by (auto simp: list_all_iff)
qed

text \<open>
  C5, as stated, fails for a requested capacity above the last 64-bit prime: the search of
  \<^verbatim>\<open>next_prime\<close> wraps around. \<^verbatim>\<open>is_prime(2^64 - 1)\<close> is false (3 divides it), then come
  0, 1 and 2, so a table requested with \<open>2 ^ 64 - 1\<close> buckets has 2.
\<close>

theorem C5_counterexample:
  "bucket_count (EmployeeHashTable_new 18446744073709551615) = 2 \<and>
   bucket_count (EmployeeHashTable_new 18446744073709551615) < 18446744073709551615"
  by (simp add: new_table_simps next_prime_max)

text \<open>
  C5 (amended). \<open>bucket_count\<close> is prime in every table built by the constructor (with
  any requested capacity), \<^verbatim>\<open>insert\<close>, \<^verbatim>\<open>remove\<close> and \<^verbatim>\<open>update\<close>, and after every rehash,
  which sets it to \<open>next_prime (2 * bucket_count)\<close> in 64-bit arithmetic. After
  construction it is the smallest prime that is at least the requested capacity whenever
  such a prime exists below \<open>(2 ^ 32 - 1)\<^sup>2\<close>, where the loop of \<^verbatim>\<open>is_prime\<close> does not wrap.
\<close>

theorem C5_bucket_count_prime:
  "(reachable t \<longrightarrow> prime_nat (bucket_count t)) \<and>
   prime_nat (bucket_count (EmployeeHashTable_new n)) \<and>
   bucket_count (rehash t) = next_prime ((bucket_count t * 2) mod 2 ^ 64) \<and>
   prime_nat (bucket_count (rehash t)) \<and>
   ((\<exists>p. prime_nat p \<and> n \<le> p \<and> p < 18446744065119617025) \<longrightarrow>
      n \<le> bucket_count (EmployeeHashTable_new n) \<and>
      (\<forall>q. prime_nat q \<and> n \<le> q \<longrightarrow> bucket_count (EmployeeHashTable_new n) \<le> q))"
proof (intro conjI impI)
  assume "reachable t"
  then show "prime_nat (bucket_count t)"
    using reachable_reach_inv by (simp add: reach_inv_def)
next
  show "prime_nat (bucket_count (EmployeeHashTable_new n))"
    by (simp add: new_table_simps is_prime_sound is_prime_next_prime)
next
  show "bucket_count (rehash t) = next_prime ((bucket_count t * 2) mod 2 ^ 64)"
    by (rule rehash_frame)
next
  show "prime_nat (bucket_count (rehash t))"
    by (simp add: rehash_frame is_prime_sound is_prime_next_prime)
next
  assume "\<exists>p. prime_nat p \<and> n \<le> p \<and> p < 18446744065119617025"
  then obtain p where "prime_nat p" "n \<le> p" "p < 18446744065119617025" by blast
  from next_prime_least [OF this] show "n \<le> bucket_count (EmployeeHashTable_new n)"
    by (simp add: new_table_simps)
next
  assume "\<exists>p. prime_nat p \<and> n \<le> p \<and> p < 18446744065119617025"
  then obtain p where "prime_nat p" "n \<le> p" "p < 18446744065119617025" by blast
  from next_prime_least [OF this]
  show "\<forall>q. prime_nat q \<and> n \<le> q \<longrightarrow> bucket_count (EmployeeHashTable_new n) \<le> q"
    by (simp add: new_table_simps)
qed

text \<open>A table that was rehashed to 5 buckets, and the capacities 17 and 34.\<close>

theorem C5_bucket_count_prime_witness:
  "reachable
     \<lparr>table = [[], [], [], [sample_employee ''AA0001'' ''Ann''],
               [sample_employee ''AA0000'' ''Bob'']],
      bucket_count = 5, element_count = 2, table_mutex = False\<rparr> \<and>
   prime_nat 5 \<and>
   prime_nat 17 \<and> (17 :: nat) \<le> 17 \<and> (17 :: nat) < 18446744065119617025 \<and>
   bucket_count (EmployeeHashTable_new 17) = 17 \<and>
   bucket_count (rehash (EmployeeHashTable_new 17)) = 37 \<and> prime_nat 37"
proof -
  let ?t = "\<lparr>table = [[], [], [], [sample_employee ''AA0001'' ''Ann''],
               [sample_employee ''AA0000'' ''Bob'']],
      bucket_count = 5, element_count = 2, table_mutex = False\<rparr>"
  have ex: "\<exists>p. prime_nat p \<and> (17::nat) \<le> p \<and> p < 18446744065119617025"
    using prime_small(1) by (intro exI [of _ 17]) simp
  from C5_bucket_count_prime [of ?t 17] reachable_run_two
  have a: "prime_nat (bucket_count ?t)" by blast
  from C5_bucket_count_prime [of "EmployeeHashTable_new 17" 17]
  have b: "bucket_count (rehash (EmployeeHashTable_new 17)) = 37"
    by (simp add: new_table_simps next_prime_small)
  show ?thesis using a b reachable_run_two prime_small
    by (simp add: new_table_simps next_prime_small)
qed




text \<open>
  C7 does not hold of the code: a record that \<^verbatim>\<open>insert\<close> accepts can be gone when the call
  returns. After \<^verbatim>\<open>update("AA0001", stray)\<close>, where \<open>stray\<close> has the id AA0000, the node of
  \<open>stray\<close> stays in the chain of AA0001. In a table of 2 buckets, \<^verbatim>\<open>insert\<close> accepts an
  employee of id AA0000 (valid: \<^verbatim>\<open>insert\<close> validates first) and rehashes; the rehash reinserts \<open>stray\<close> first and drops the new
  employee as a duplicate. \<^verbatim>\<open>insert\<close> returned \<^verbatim>\<open>true\<close>, and \<^verbatim>\<open>find("AA0000")\<close> returns
  \<open>stray\<close>, where C7 says that it returns the inserted employee. In a table of 3 buckets
  the same \<^verbatim>\<open>insert\<close> after the same \<^verbatim>\<open>update\<close> does not rehash, and \<^verbatim>\<open>find\<close> returns
  the inserted employee.
\<close>

theorem C7_accepted_record_lost:
  "insert_ht (sample_employee ''AA0001'' ''Ann'') (EmployeeHashTable_new 2) =
     Returned (Inr True,
       \<lparr>table = [[sample_employee ''AA0001'' ''Ann''], []],
        bucket_count = 2, element_count = 1, table_mutex = False\<rparr>) \<and>
   update ''AA0001'' (sample_employee ''AA0000'' ''Stray'')
     \<lparr>table = [[sample_employee ''AA0001'' ''Ann''], []],
      bucket_count = 2, element_count = 1, table_mutex = False\<rparr> =
     Returned (Inr True,
       \<lparr>table = [[sample_employee ''AA0000'' ''Stray''], []],
        bucket_count = 2, element_count = 1, table_mutex = False\<rparr>) \<and>
   insert_ht (sample_employee ''AA0000'' ''Bob'')
     \<lparr>table = [[sample_employee ''AA0000'' ''Stray''], []],
      bucket_count = 2, element_count = 1, table_mutex = False\<rparr> =
     Returned (Inr True,
       \<lparr>table = [[], [], [], [], [sample_employee ''AA0000'' ''Stray'']],
        bucket_count = 5, element_count = 1, table_mutex = False\<rparr>) \<and>
   find_ht ''AA0000''
     \<lparr>table = [[], [], [], [], [sample_employee ''AA0000'' ''Stray'']],
      bucket_count = 5, element_count = 1, table_mutex = False\<rparr> =
     Returned (Some (sample_employee ''AA0000'' ''Stray'')) \<and>
   sample_employee ''AA0000'' ''Stray'' \<noteq> sample_employee ''AA0000'' ''Bob'' \<and>
   insert_ht (sample_employee ''AA0001'' ''Ann'') (EmployeeHashTable_new 3) =
     Returned (Inr True,
       \<lparr>table = [[], [sample_employee ''AA0001'' ''Ann''], []],
        bucket_count = 3, element_count = 1, table_mutex = False\<rparr>) \<and>
   update ''AA0001'' (sample_employee ''AA0000'' ''Stray'')
     \<lparr>table = [[], [sample_employee ''AA0001'' ''Ann''], []],
      bucket_count = 3, element_count = 1, table_mutex = False\<rparr> =
     Returned (Inr True,
       \<lparr>table = [[], [sample_employee ''AA0000'' ''Stray''], []],
        bucket_count = 3, element_count = 1, table_mutex = False\<rparr>) \<and>
   insert_ht (sample_employee ''AA0000'' ''Bob'')
     \<lparr>table = [[], [sample_employee ''AA0000'' ''Stray''], []],
      bucket_count = 3, element_count = 1, table_mutex = False\<rparr> =
     Returned (Inr True,
       \<lparr>table = [[], [sample_employee ''AA0000'' ''Stray''], [sample_employee ''AA0000'' ''Bob'']],
        bucket_count = 3, element_count = 2, table_mutex = False\<rparr>) \<and>
   find_ht ''AA0000''
     \<lparr>table = [[], [sample_employee ''AA0000'' ''Stray''], [sample_employee ''AA0000'' ''Bob'']],
      bucket_count = 3, element_count = 2, table_mutex = False\<rparr> =
     Returned (Some (sample_employee ''AA0000'' ''Bob''))"
  by (intro conjI run_two_first run_A_update run_A_insert run_A_find sample_neq
      run_B_first run_C_update run_C_insert run_C_find)

text \<open>
  C8. For every table built by the constructor, \<^verbatim>\<open>insert\<close>, \<^verbatim>\<open>remove\<close> and \<^verbatim>\<open>update\<close>,
  \<^verbatim>\<open>search\<close> with empty criteria returns the stored records, one copy of each, as many as
  \<^verbatim>\<open>size()\<close> says, and \<^verbatim>\<open>get_all()\<close> returns the same list.
\<close>

theorem C8_search_everything:
  "reachable t \<Longrightarrow>
   search empty_criteria t = Returned (stored t) \<and>
   get_all t = Returned (stored t) \<and>
   size_ht t = Returned (length (stored t))"
proof -
  assume "reachable t"
  then have "reach_inv t" by (rule reachable_reach_inv)
  then have "\<not> table_mutex t" "element_count t = length (stored t)"
    by (simp_all add: reach_inv_def counted_def)
  then show ?thesis
    by (simp add: search_empty get_all_def size_ht_def lock_guard_const_def)
qed

text \<open>A table of 5 buckets with two records.\<close>

theorem C8_search_everything_witness:
  "reachable
     \<lparr>table = [[], [], [], [sample_employee ''AA0001'' ''Ann''],
               [sample_employee ''AA0000'' ''Bob'']],
      bucket_count = 5, element_count = 2, table_mutex = False\<rparr> \<and>
   search empty_criteria
     \<lparr>table = [[], [], [], [sample_employee ''AA0001'' ''Ann''],
               [sample_employee ''AA0000'' ''Bob'']],
      bucket_count = 5, element_count = 2, table_mutex = False\<rparr> =
     Returned [sample_employee ''AA0001'' ''Ann'', sample_employee ''AA0000'' ''Bob''] \<and>
   get_all
     \<lparr>table = [[], [], [], [sample_employee ''AA0001'' ''Ann''],
               [sample_employee ''AA0000'' ''Bob'']],
      bucket_count = 5, element_count = 2, table_mutex = False\<rparr> =
     Returned [sample_employee ''AA0001'' ''Ann'', sample_employee ''AA0000'' ''Bob''] \<and>
   size_ht
     \<lparr>table = [[], [], [], [sample_employee ''AA0001'' ''Ann''],
               [sample_employee ''AA0000'' ''Bob'']],
      bucket_count = 5, element_count = 2, table_mutex = False\<rparr> = Returned 2"
  using C8_search_everything [OF reachable_run_two] reachable_run_two
  by (simp add: stored_def)

text \<open>
  C9, as stated, fails where the chain holds the key twice, which an earlier \<^verbatim>\<open>update\<close>
  with another id brings about: AA0001 and AA0002 share a chain of a table of 3 buckets,
  \<^verbatim>\<open>update("AA0001", x)\<close> with \<open>x\<close> of id AA0002 leaves two nodes of id AA0002 there, and
  after \<^verbatim>\<open>update("AA0002", z)\<close> with \<open>z\<close> of id ZZ9999 \<^verbatim>\<open>find("AA0002")\<close> returns \<open>x\<close>, not
  nothing.
\<close>

theorem C9_counterexample:
  "insert_ht (sample_employee ''AA0001'' ''Ann'') (EmployeeHashTable_new 3) =
     Returned (Inr True,
       \<lparr>table = [[], [sample_employee ''AA0001'' ''Ann''], []],
        bucket_count = 3, element_count = 1, table_mutex = False\<rparr>) \<and>
   insert_ht (sample_employee ''AA0002'' ''Bob'')
     \<lparr>table = [[], [sample_employee ''AA0001'' ''Ann''], []],
      bucket_count = 3, element_count = 1, table_mutex = False\<rparr> =
     Returned (Inr True,
       \<lparr>table = [[], [sample_employee ''AA0002'' ''Bob'', sample_employee ''AA0001'' ''Ann''], []],
        bucket_count = 3, element_count = 2, table_mutex = False\<rparr>) \<and>
   update ''AA0001'' (sample_employee ''AA0002'' ''Xavier'')
     \<lparr>table = [[], [sample_employee ''AA0002'' ''Bob'', sample_employee ''AA0001'' ''Ann''], []],
      bucket_count = 3, element_count = 2, table_mutex = False\<rparr> =
     Returned (Inr True,
       \<lparr>table = [[], [sample_employee ''AA0002'' ''Bob'', sample_employee ''AA0002'' ''Xavier''], []],
        bucket_count = 3, element_count = 2, table_mutex = False\<rparr>) \<and>
   find_ht ''AA0002''
     \<lparr>table = [[], [sample_employee ''AA0002'' ''Bob'', sample_employee ''AA0002'' ''Xavier''], []],
      bucket_count = 3, element_count = 2, table_mutex = False\<rparr> =
     Returned (Some (sample_employee ''AA0002'' ''Bob'')) \<and>
   validate (sample_employee ''ZZ9999'' ''Zed'') = Inr () \<and>
   id_emp (sample_employee ''ZZ9999'' ''Zed'') \<noteq> ''AA0002'' \<and>
   update ''AA0002'' (sample_employee ''ZZ9999'' ''Zed'')
     \<lparr>table = [[], [sample_employee ''AA0002'' ''Bob'', sample_employee ''AA0002'' ''Xavier''], []],
      bucket_count = 3, element_count = 2, table_mutex = False\<rparr> =
     Returned (Inr True,
       \<lparr>table = [[], [sample_employee ''ZZ9999'' ''Zed'', sample_employee ''AA0002'' ''Xavier''], []],
        bucket_count = 3, element_count = 2, table_mutex = False\<rparr>) \<and>
   find_ht ''AA0002''
     \<lparr>table = [[], [sample_employee ''ZZ9999'' ''Zed'', sample_employee ''AA0002'' ''Xavier''], []],
      bucket_count = 3, element_count = 2, table_mutex = False\<rparr> =
     Returned (Some (sample_employee ''AA0002'' ''Xavier''))"
  by (intro conjI run_B_first run_B_second run_B_update1 run_B_find_before run_B_update2
      run_B_find_after sample_valid_more) simp

text \<open>
  C9 (amended). In a table whose vector has \<open>bucket_count\<close> chains, if \<^verbatim>\<open>find\<close> finds a
  record with the key, its chain holds no second record with that key, and
  \<open>new_record\<close> is valid with another id, then \<^verbatim>\<open>update(key, new_record)\<close> returns
  \<^verbatim>\<open>true\<close>, \<^verbatim>\<open>size()\<close> is unchanged, \<open>new_record\<close> is stored in the chain of the old key,
  and \<^verbatim>\<open>find(key)\<close> returns nothing afterwards.
\<close>

theorem C9_update_other_key:
  "buckets_ok t \<Longrightarrow> find_ht k t = Returned (Some old) \<Longrightarrow> validate new_record = Inr () \<Longrightarrow>
   id_emp new_record \<noteq> k \<Longrightarrow>
   length (filter (\<lambda>e. id_emp e = k) (table t ! hash k (bucket_count t))) \<le> 1 \<Longrightarrow>
   \<exists>t'. update k new_record t = Returned (Inr True, t') \<and>
        size_ht t' = size_ht t \<and>
        bucket_count t' = bucket_count t \<and>
        new_record \<in> set (table t' ! hash k (bucket_count t')) \<and>
        find_ht k t' = Returned None"
  by (rule update_other_key)

text \<open>The first of the two updates of the run above.\<close>

theorem C9_update_other_key_witness:
  "buckets_ok
     \<lparr>table = [[], [sample_employee ''AA0002'' ''Bob'', sample_employee ''AA0001'' ''Ann''], []],
      bucket_count = 3, element_count = 2, table_mutex = False\<rparr> \<and>
   find_ht ''AA0001''
     \<lparr>table = [[], [sample_employee ''AA0002'' ''Bob'', sample_employee ''AA0001'' ''Ann''], []],
      bucket_count = 3, element_count = 2, table_mutex = False\<rparr> =
     Returned (Some (sample_employee ''AA0001'' ''Ann'')) \<and>
   validate (sample_employee ''AA0002'' ''Xavier'') = Inr () \<and>
   id_emp (sample_employee ''AA0002'' ''Xavier'') \<noteq> ''AA0001'' \<and>
   update ''AA0001'' (sample_employee ''AA0002'' ''Xavier'')
     \<lparr>table = [[], [sample_employee ''AA0002'' ''Bob'', sample_employee ''AA0001'' ''Ann''], []],
      bucket_count = 3, element_count = 2, table_mutex = False\<rparr> =
     Returned (Inr True,
       \<lparr>table = [[], [sample_employee ''AA0002'' ''Bob'', sample_employee ''AA0002'' ''Xavier''], []],
        bucket_count = 3, element_count = 2, table_mutex = False\<rparr>) \<and>
   size_ht
     \<lparr>table = [[], [sample_employee ''AA0002'' ''Bob'', sample_employee ''AA0002'' ''Xavier''], []],
      bucket_count = 3, element_count = 2, table_mutex = False\<rparr> = Returned 2 \<and>
   find_ht ''AA0001''
     \<lparr>table = [[], [sample_employee ''AA0002'' ''Bob'', sample_employee ''AA0002'' ''Xavier''], []],
      bucket_count = 3, element_count = 2, table_mutex = False\<rparr> = Returned None"
proof -
  let ?t = "\<lparr>table = [[], [sample_employee ''AA0002'' ''Bob'', sample_employee ''AA0001'' ''Ann''], []],
      bucket_count = 3, element_count = 2, table_mutex = False\<rparr>"
  let ?t' = "\<lparr>table = [[], [sample_employee ''AA0002'' ''Bob'', sample_employee ''AA0002'' ''Xavier''], []],
        bucket_count = 3, element_count = 2, table_mutex = False\<rparr>"
  have ok: "buckets_ok ?t" by (simp add: buckets_ok_def)
  have f: "find_ht ''AA0001'' ?t = Returned (Some (sample_employee ''AA0001'' ''Ann''))"
    by (simp add: find_ht_def lock_guard_const_def sample_hash_3)
  have ne: "id_emp (sample_employee ''AA0002'' ''Xavier'') \<noteq> ''AA0001''" by simp
  have once: "length (filter (\<lambda>e. id_emp e = ''AA0001'') (table ?t ! hash ''AA0001'' (bucket_count ?t))) \<le> 1"
    by (simp add: sample_hash_3)
  from C9_update_other_key [OF ok f sample_valid_more(3) ne once]
  obtain t' where t': "update ''AA0001'' (sample_employee ''AA0002'' ''Xavier'') ?t =
      Returned (Inr True, t')" "size_ht t' = size_ht ?t" "find_ht ''AA0001'' t' = Returned None"
    by blast
  from t'(1) have "t' = ?t'" by (simp add: run_B_update1)
  with t' ok f ne show ?thesis
    by (simp add: sample_valid_more run_B_update1 size_ht_def lock_guard_const_def)
qed

text \<open>
  C10, as stated, fails for \<^verbatim>\<open>load_factor\<close>, which has no \<^verbatim>\<open>lock_guard\<close>. Caller 0 is
  inside \<^verbatim>\<open>insert\<close>, between \<^verbatim>\<open>insert_internal\<close> and the load factor test, and holds the
  mutex; the table has 2 records in 2 buckets. The \<^verbatim>\<open>size()\<close> of caller 2 cannot start.
  The \<^verbatim>\<open>load_factor()\<close> of caller 1 runs from its call to its return meanwhile, and
  returns 1, above the maximum of 0.75.
\<close>

theorem C10_counterexample:
  "insert_ht (sample_employee ''AA0001'' ''Ann'') (EmployeeHashTable_new 2) =
     Returned (Inr True,
       \<lparr>table = [[sample_employee ''AA0001'' ''Ann''], []],
        bucket_count = 2, element_count = 1, table_mutex = False\<rparr>) \<and>
   run [Call 0 (Insert (sample_employee ''AA0000'' ''Bob'')), Step 0, Step 0, Step 0,
        Call 1 Load_factor, Call 2 Size]
     ([Idle, Idle, Idle],
      \<lparr>table = [[sample_employee ''AA0001'' ''Ann''], []],
       bucket_count = 2, element_count = 1, table_mutex = False\<rparr>) =
   Some ([In_call (Insert (sample_employee ''AA0000'' ''Bob'')) Inserted,
          In_call Load_factor Entry, In_call Size Entry],
     \<lparr>table = [[sample_employee ''AA0001'' ''Ann''], [sample_employee ''AA0000'' ''Bob'']],
      bucket_count = 2, element_count = 2, table_mutex = True\<rparr>) \<and>
   perform (Step 2)
     ([In_call (Insert (sample_employee ''AA0000'' ''Bob'')) Inserted,
       In_call Load_factor Entry, In_call Size Entry],
      \<lparr>table = [[sample_employee ''AA0001'' ''Ann''], [sample_employee ''AA0000'' ''Bob'']],
       bucket_count = 2, element_count = 2, table_mutex = True\<rparr>) = None \<and>
   perform (Step 1)
     ([In_call (Insert (sample_employee ''AA0000'' ''Bob'')) Inserted,
       In_call Load_factor Entry, In_call Size Entry],
      \<lparr>table = [[sample_employee ''AA0001'' ''Ann''], [sample_employee ''AA0000'' ''Bob'']],
       bucket_count = 2, element_count = 2, table_mutex = True\<rparr>) =
   Some ([In_call (Insert (sample_employee ''AA0000'' ''Bob'')) Inserted,
          Got (Ratio 1), In_call Size Entry],
     \<lparr>table = [[sample_employee ''AA0001'' ''Ann''], [sample_employee ''AA0000'' ''Bob'']],
      bucket_count = 2, element_count = 2, table_mutex = True\<rparr>) \<and>
   MAX_LOAD_FACTOR < 1"
  by (intro conjI run_two_first run_D_waiting run_D_size_waits run_D_load_factor_returns
      max_load_factor_below_1)

text \<open>
  C10 (amended). Every public operation except \<^verbatim>\<open>load_factor\<close> (\<^verbatim>\<open>insert\<close>, \<^verbatim>\<open>remove\<close>,
  \<^verbatim>\<open>find\<close>, \<^verbatim>\<open>update\<close>, \<^verbatim>\<open>search\<close>, \<^verbatim>\<open>get_all\<close>, \<^verbatim>\<open>size\<close>, \<^verbatim>\<open>get_statistics\<close>) acquires
  the lock with its first statement, holds it for its full duration, the traversal of
  any chain and a rehash triggered by an \<^verbatim>\<open>insert\<close> included, and releases it when it
  returns, so that no two of these operations on the same table overlap. In every
  interleaving of the calls of \<open>n\<close> callers that starts with the mutex free: the mutex is
  held exactly when some caller is inside a member function (past its first statement
  and before its return); no two callers are inside at once; and while one is, the only
  statement that another caller can run is a \<^verbatim>\<open>load_factor\<close>, which takes no lock and
  leaves the table as it is.
\<close>

theorem C10_mutual_exclusion:
  assumes free: "\<not> table_mutex t0" and r: "run evs (replicate n Idle, t0) = Some (cs, t)"
  shows "length cs = n \<and>
         (table_mutex t \<longleftrightarrow> (\<exists>i < n. inside (cs ! i))) \<and>
         (\<forall>i < n. inside (cs ! i) \<longrightarrow>
            (\<forall>j < n. j \<noteq> i \<longrightarrow>
               \<not> inside (cs ! j) \<and>
               (\<forall>s'. perform (Step j) (cs, t) = Some s' \<longrightarrow>
                  cs ! j = In_call Load_factor Entry \<and> snd s' = t)))"
proof -
  from run_length [OF r] have len: "length cs = n" by simp
  from run_exclusive [OF idle_exclusive [OF free] r] have ex: "exclusive (cs, t)" .
  have a: "table_mutex t \<longleftrightarrow> (\<exists>i < n. inside (cs ! i))"
    using ex len by (simp add: exclusive_def)
  have b: "\<not> inside (cs ! j)" if "i < n" "inside (cs ! i)" "j < n" "j \<noteq> i" for i j
    using ex len that by (auto simp: exclusive_def)
  have c: "cs ! j = In_call Load_factor Entry \<and> snd s' = t"
    if "i < n" "inside (cs ! i)" "j \<noteq> i" "perform (Step j) (cs, t) = Some s'" for i j s'
    using step_of_outsider [OF ex _ that(2,3), of "fst s'" "snd s'"] that(1,4) len by simp
  show ?thesis using len a b c by blast
qed

text \<open>
  Caller 0 is about to rehash inside \<^verbatim>\<open>insert\<close> and holds the mutex; the \<^verbatim>\<open>size()\<close> of
  caller 1 waits.
\<close>

theorem C10_mutual_exclusion_witness:
  "\<not> table_mutex
     \<lparr>table = [[sample_employee ''AA0001'' ''Ann''], []],
      bucket_count = 2, element_count = 1, table_mutex = False\<rparr> \<and>
   run [Call 0 (Insert (sample_employee ''AA0000'' ''Bob'')), Call 1 Size,
        Step 0, Step 0, Step 0, Step 0]
     (replicate 2 Idle,
      \<lparr>table = [[sample_employee ''AA0001'' ''Ann''], []],
       bucket_count = 2, element_count = 1, table_mutex = False\<rparr>) =
   Some ([In_call (Insert (sample_employee ''AA0000'' ''Bob'')) Rehashing, In_call Size Entry],
     \<lparr>table = [[sample_employee ''AA0001'' ''Ann''], [sample_employee ''AA0000'' ''Bob'']],
      bucket_count = 2, element_count = 2, table_mutex = True\<rparr>) \<and>
   inside (In_call (Insert (sample_employee ''AA0000'' ''Bob'')) Rehashing) \<and>
   table_mutex
     \<lparr>table = [[sample_employee ''AA0001'' ''Ann''], [sample_employee ''AA0000'' ''Bob'']],
      bucket_count = 2, element_count = 2, table_mutex = True\<rparr> \<and>
   \<not> inside (In_call Size Entry) \<and>
   perform (Step 1)
     ([In_call (Insert (sample_employee ''AA0000'' ''Bob'')) Rehashing, In_call Size Entry],
      \<lparr>table = [[sample_employee ''AA0001'' ''Ann''], [sample_employee ''AA0000'' ''Bob'']],
       bucket_count = 2, element_count = 2, table_mutex = True\<rparr>) = None"
proof -
  let ?before = "\<lparr>table = [[sample_employee ''AA0001'' ''Ann''], []],
      bucket_count = 2, element_count = 1, table_mutex = False\<rparr>"
  let ?after = "\<lparr>table = [[sample_employee ''AA0001'' ''Ann''], [sample_employee ''AA0000'' ''Bob'']],
      bucket_count = 2, element_count = 2, table_mutex = True\<rparr>"
  let ?cs = "[In_call (Insert (sample_employee ''AA0000'' ''Bob'')) Rehashing, In_call Size Entry]"
  let ?evs = "[Call 0 (Insert (sample_employee ''AA0000'' ''Bob'')), Call 1 Size,
        Step 0, Step 0, Step 0, Step 0]"
  have free: "\<not> table_mutex ?before" by simp
  have r: "run ?evs (replicate 2 Idle, ?before) = Some (?cs, ?after)"
    unfolding replicate_small by (rule run_E_rehashing)
  from C10_mutual_exclusion [OF free r]
  have m: "table_mutex ?after \<longleftrightarrow> (\<exists>i < 2. inside (?cs ! i))"
    by blast
  have held: "table_mutex ?after"
  proof (rule iffD2 [OF m])
    show "\<exists>i < 2. inside (?cs ! i)" by (intro exI [of _ 0]) simp
  qed
  have n1: "\<not> inside (In_call Size Entry)" by simp
  have i0': "inside (In_call (Insert (sample_employee ''AA0000'' ''Bob'')) Rehashing)" by simp
  show ?thesis by (intro conjI free r i0' held n1 run_E_size_waits)
qed

end
